theory Spec2Isabelle
  imports Main "HOL-Library.Word"
begin

section \<open>Data model\<close>

text \<open>
  The three translation units of the buffer pool are embedded here: the LRU replacer,
  the single buffer pool instance and the parallel pool. Frame identifiers index the
  frame array, so they are natural numbers; page identifiers are signed.
\<close>

type_synonym frame_id_t = nat

text \<open>
  Modelled from the spec: the width of \<open>page_id_t\<close> is declared in a header that is not
  part of the sources; the specification calls a page identifier "a signed integer", so
  page identifiers are mathematical integers and the allocator counter does not wrap.
\<close>

type_synonym page_id_t = int

type_synonym byte = "8 word"

text \<open>
  Modelled from the spec: \<open>INVALID_PAGE_ID\<close> and \<open>PAGE_SIZE\<close> are constants of a header
  that is not part of the sources; the specification gives \<open>-1\<close> and \<open>4096\<close>.
\<close>

definition INVALID_PAGE_ID :: page_id_t where
  "INVALID_PAGE_ID = - 1"

definition PAGE_SIZE :: nat where
  "PAGE_SIZE = 4096"

text \<open>The buffer that \<open>memset(data, 0, PAGE_SIZE)\<close> and \<open>ResetMemory\<close> leave behind.\<close>

definition zero_page :: "byte list" where
  "zero_page = replicate PAGE_SIZE 0"

text \<open>
  Modelled from the spec: the class \<open>Page\<close> is declared in a header that is not part of
  the sources; the sources use its buffer \<open>data_\<close> and its fields \<open>page_id_\<close>,
  \<open>pin_count_\<close> and \<open>is_dirty_\<close>. The pin count is an integer, as the specification
  has it; the sources only increment, decrement and compare it.
\<close>

record Page =
  data :: "byte list"
  page_id :: page_id_t
  pin_count :: int
  is_dirty :: bool

subsection \<open>Disk manager\<close>

text \<open>
  Modelled from the spec: the disk manager is an external collaborator whose code is not
  part of the sources. \<open>WritePage\<close> persists a buffer as the new contents of a page,
  \<open>ReadPage\<close> returns the contents, \<open>DeallocatePage\<close> changes no contents. Every call
  is appended to \<open>io_log\<close>, so that "performs no disk I/O" and "calls DeallocatePage"
  can be stated.
\<close>

datatype disk_op = Write page_id_t "byte list" | Read page_id_t | Dealloc page_id_t

record DiskManager =
  contents :: "page_id_t \<Rightarrow> byte list"
  io_log :: "disk_op list"

definition WritePage :: "DiskManager \<Rightarrow> page_id_t \<Rightarrow> byte list \<Rightarrow> DiskManager" where
  "WritePage d p buf = d\<lparr>contents := (contents d)(p := buf), io_log := io_log d @ [Write p buf]\<rparr>"

definition ReadPage :: "DiskManager \<Rightarrow> page_id_t \<Rightarrow> byte list \<times> DiskManager" where
  "ReadPage d p = (contents d p, d\<lparr>io_log := io_log d @ [Read p]\<rparr>)"

definition DeallocatePage :: "DiskManager \<Rightarrow> page_id_t \<Rightarrow> DiskManager" where
  "DeallocatePage d p = d\<lparr>io_log := io_log d @ [Dealloc p]\<rparr>"

section \<open>LRU replacer\<close>

text \<open>
  \<open>lru_list\<close> is the doubly linked list, its head the front. \<open>lru_map\<close> maps a frame to
  the list node that holds it; the model keeps the key set of that index. Erasing the
  node a key designates is \<open>remove1\<close> of that key, the list holding every key once.
\<close>

record LRUReplacer =
  capacity :: nat
  lru_list :: "frame_id_t list"
  lru_map :: "frame_id_t set"

definition LRUReplacer_new :: "nat \<Rightarrow> LRUReplacer" where
  "LRUReplacer_new num_pages = \<lparr>capacity = num_pages, lru_list = [], lru_map = {}\<rparr>"

definition Size :: "LRUReplacer \<Rightarrow> nat" where
  "Size r = length (lru_list r)"

text \<open>
  \<open>Victim\<close> returns false and stores \<open>INVALID_PAGE_ID\<close> in its out-parameter when the
  index is empty; both callers ignore the out-parameter then, so the model returns
  \<open>None\<close>.
\<close>

definition Victim :: "LRUReplacer \<Rightarrow> frame_id_t option \<times> LRUReplacer" where
  "Victim r =
     (if lru_map r = {} then (None, r)
      else (Some (last (lru_list r)),
            r\<lparr>lru_list := butlast (lru_list r), lru_map := lru_map r - {last (lru_list r)}\<rparr>))"

definition Pin :: "LRUReplacer \<Rightarrow> frame_id_t \<Rightarrow> LRUReplacer" where
  "Pin r frame_id =
     (if frame_id \<in> lru_map r
      then r\<lparr>lru_list := remove1 frame_id (lru_list r), lru_map := lru_map r - {frame_id}\<rparr>
      else r)"

text \<open>
  When the list is at capacity \<open>Unpin\<close> drops the back element before it inserts at the
  front. (With capacity 0 the source calls \<open>back()\<close> on an empty list; no frame exists
  then and the pool never calls \<open>Unpin\<close>.)
\<close>

definition Unpin :: "LRUReplacer \<Rightarrow> frame_id_t \<Rightarrow> LRUReplacer" where
  "Unpin r frame_id =
     (if frame_id \<in> lru_map r then r
      else
        (let r1 = (if Size r \<ge> capacity r
                   then r\<lparr>lru_map := lru_map r - {last (lru_list r)},
                          lru_list := butlast (lru_list r)\<rparr>
                   else r)
         in r1\<lparr>lru_list := frame_id # lru_list r1, lru_map := insert frame_id (lru_map r1)\<rparr>))"

text \<open>A run of \<open>Unpin\<close> calls, and \<open>n\<close> successive \<open>Victim\<close> calls with their results.\<close>

fun Unpin_all :: "LRUReplacer \<Rightarrow> frame_id_t list \<Rightarrow> LRUReplacer" where
  "Unpin_all r [] = r"
| "Unpin_all r (f # fs) = Unpin_all (Unpin r f) fs"

fun Victim_n :: "nat \<Rightarrow> LRUReplacer \<Rightarrow> frame_id_t option list \<times> LRUReplacer" where
  "Victim_n 0 r = ([], r)"
| "Victim_n (Suc n) r =
     (case Victim r of (v, r1) \<Rightarrow> (case Victim_n n r1 of (vs, r2) \<Rightarrow> (v # vs, r2)))"

text \<open>The coupling of the list and its index that the three operations maintain.\<close>

definition replacer_ok :: "LRUReplacer \<Rightarrow> bool" where
  "replacer_ok r = (lru_map r = set (lru_list r) \<and> distinct (lru_list r))"

text \<open>
  The states of a replacer: a new one, and every state its three operations lead to.
  \<open>Unpin\<close> is called on a replacer of positive capacity only (see above).
\<close>

inductive replacer_reachable :: "LRUReplacer \<Rightarrow> bool" where
  replacer_new: "replacer_reachable (LRUReplacer_new num_pages)"
| replacer_Victim: "replacer_reachable r \<Longrightarrow> replacer_reachable (snd (Victim r))"
| replacer_Pin: "replacer_reachable r \<Longrightarrow> replacer_reachable (Pin r frame_id)"
| replacer_Unpin:
    "replacer_reachable r \<Longrightarrow> 0 < capacity r \<Longrightarrow> replacer_reachable (Unpin r frame_id)"

section \<open>Buffer pool instance\<close>

record BufferPoolManagerInstance =
  pool_size :: nat
  num_instances :: nat
  instance_index :: nat
  next_page_id :: page_id_t
  pages :: "Page list"
  replacer :: LRUReplacer
  free_list :: "frame_id_t list"
  page_table :: "page_id_t \<rightharpoonup> frame_id_t"
  disk_manager :: DiskManager

text \<open>
  The constructor. Its two assertions (\<open>num_instances > 0\<close>,
  \<open>instance_index < num_instances\<close>) are the side conditions of the first rule of
  \<open>reachable\<close> below. Every frame starts on the free list with a zeroed buffer.
\<close>

definition BufferPoolManagerInstance_new ::
  "nat \<Rightarrow> nat \<Rightarrow> nat \<Rightarrow> DiskManager \<Rightarrow> BufferPoolManagerInstance" where
  "BufferPoolManagerInstance_new psize n idx d =
     \<lparr>pool_size = psize, num_instances = n, instance_index = idx,
      next_page_id = int idx,
      pages = replicate psize
        \<lparr>data = zero_page, page_id = INVALID_PAGE_ID, pin_count = 0, is_dirty = False\<rparr>,
      replacer = LRUReplacer_new psize,
      free_list = [0..<psize],
      page_table = Map.empty,
      disk_manager = d\<rparr>"

text \<open>The condition that \<open>ValidatePageId\<close> asserts.\<close>

definition ValidatePageId :: "BufferPoolManagerInstance \<Rightarrow> page_id_t \<Rightarrow> bool" where
  "ValidatePageId s p = (p mod int (num_instances s) = int (instance_index s))"

definition AllocatePage :: "BufferPoolManagerInstance \<Rightarrow> page_id_t \<times> BufferPoolManagerInstance" where
  "AllocatePage s =
     (next_page_id s, s\<lparr>next_page_id := next_page_id s + int (num_instances s)\<rparr>)"

definition FindPage :: "BufferPoolManagerInstance \<Rightarrow> frame_id_t option \<times> BufferPoolManagerInstance" where
  "FindPage s =
     (case free_list s of
        f # rest \<Rightarrow> (Some f, s\<lparr>free_list := rest\<rparr>)
      | [] \<Rightarrow>
          (case Victim (replacer s) of
             (None, r) \<Rightarrow> (None, s\<lparr>replacer := r\<rparr>)
           | (Some f, r) \<Rightarrow>
               (Some f,
                s\<lparr>replacer := r,
                  disk_manager :=
                    (if is_dirty (pages s ! f)
                     then WritePage (disk_manager s) (page_id (pages s ! f)) (data (pages s ! f))
                     else disk_manager s),
                  page_table := (page_table s)(page_id (pages s ! f) := None)\<rparr>)))"

definition FlushPgImp :: "BufferPoolManagerInstance \<Rightarrow> page_id_t \<Rightarrow> bool \<times> BufferPoolManagerInstance" where
  "FlushPgImp s p =
     (case page_table s p of
        None \<Rightarrow> (False, s)
      | Some f \<Rightarrow>
          if p = INVALID_PAGE_ID then (False, s)
          else (True,
                s\<lparr>disk_manager := WritePage (disk_manager s) p (data (pages s ! f)),
                  pages := (pages s)[f := (pages s ! f)\<lparr>is_dirty := False\<rparr>]\<rparr>))"

text \<open>
  \<open>FlushAllPgsImp\<close> walks the page table, a hash map whose iteration order the source
  does not fix: the order is a parameter, the list of keys visited.
\<close>

definition flush_entry :: "page_id_t \<Rightarrow> BufferPoolManagerInstance \<Rightarrow> BufferPoolManagerInstance" where
  "flush_entry p s =
     (case page_table s p of
        None \<Rightarrow> s
      | Some f \<Rightarrow>
          s\<lparr>disk_manager := WritePage (disk_manager s) p (data (pages s ! f)),
            pages := (pages s)[f := (pages s ! f)\<lparr>is_dirty := False\<rparr>]\<rparr>)"

definition FlushAllPgsImp :: "BufferPoolManagerInstance \<Rightarrow> page_id_t list \<Rightarrow> BufferPoolManagerInstance" where
  "FlushAllPgsImp s order = fold flush_entry order s"

text \<open>
  \<open>NewPgImp\<close> returns the new page id with the frame the returned pointer designates.
\<close>

definition NewPgImp ::
  "BufferPoolManagerInstance \<Rightarrow> (page_id_t \<times> frame_id_t) option \<times> BufferPoolManagerInstance" where
  "NewPgImp s =
     (case FindPage s of
        (None, s1) \<Rightarrow> (None, s1)
      | (Some f, s1) \<Rightarrow>
          (case AllocatePage s1 of
             (pid, s2) \<Rightarrow>
               (Some (pid, f),
                s2\<lparr>pages := (pages s2)[f := (pages s2 ! f)
                       \<lparr>data := zero_page, page_id := pid,
                        pin_count := pin_count (pages s2 ! f) + 1, is_dirty := False\<rparr>],
                   page_table := (page_table s2)(pid \<mapsto> f),
                   replacer := Pin (replacer s2) f,
                   disk_manager := WritePage (disk_manager s2) pid zero_page\<rparr>)))"

definition FetchPgImp ::
  "BufferPoolManagerInstance \<Rightarrow> page_id_t \<Rightarrow> frame_id_t option \<times> BufferPoolManagerInstance" where
  "FetchPgImp s p =
     (case page_table s p of
        Some f \<Rightarrow>
          (Some f,
           s\<lparr>pages := (pages s)[f := (pages s ! f)\<lparr>pin_count := pin_count (pages s ! f) + 1\<rparr>],
             replacer := Pin (replacer s) f\<rparr>)
      | None \<Rightarrow>
          (case FindPage s of
             (None, s1) \<Rightarrow> (None, s1)
           | (Some f, s1) \<Rightarrow>
               (case ReadPage
                       (if is_dirty (pages s1 ! f)
                        then WritePage (disk_manager s1) (page_id (pages s1 ! f)) (data (pages s1 ! f))
                        else disk_manager s1) p of
                  (buf, d2) \<Rightarrow>
                    (Some f,
                     s1\<lparr>page_table := ((page_table s1)(page_id (pages s1 ! f) := None))(p \<mapsto> f),
                        disk_manager := d2,
                        pages := (pages s1)[f := (pages s1 ! f)
                          \<lparr>data := buf, page_id := p,
                           pin_count := pin_count (pages s1 ! f) + 1, is_dirty := False\<rparr>],
                        replacer := Pin (replacer s1) f\<rparr>))))"

definition DeletePgImp :: "BufferPoolManagerInstance \<Rightarrow> page_id_t \<Rightarrow> bool \<times> BufferPoolManagerInstance" where
  "DeletePgImp s p =
     (case page_table s p of
        None \<Rightarrow> (True, s)
      | Some f \<Rightarrow>
          if pin_count (pages s ! f) > 0 then (False, s)
          else (True,
                s\<lparr>disk_manager :=
                    DeallocatePage
                      (if is_dirty (pages s ! f)
                       then WritePage (disk_manager s) p (data (pages s ! f))
                       else disk_manager s) p,
                  page_table := (page_table s)(p := None),
                  pages := (pages s)[f := (pages s ! f)
                    \<lparr>data := zero_page, page_id := INVALID_PAGE_ID,
                     pin_count := 0, is_dirty := False\<rparr>],
                  free_list := free_list s @ [f]\<rparr>))"

text \<open>
  \<open>UnpinPgImp\<close> sets the dirty bit first and tests the pin count afterwards, in the
  order of the source.
\<close>

definition UnpinPgImp ::
  "BufferPoolManagerInstance \<Rightarrow> page_id_t \<Rightarrow> bool \<Rightarrow> bool \<times> BufferPoolManagerInstance" where
  "UnpinPgImp s p flag =
     (case page_table s p of
        None \<Rightarrow> (False, s)
      | Some f \<Rightarrow>
          (let s1 = (if flag
                     then s\<lparr>pages := (pages s)[f := (pages s ! f)\<lparr>is_dirty := True\<rparr>]\<rparr>
                     else s)
           in if pin_count (pages s1 ! f) = 0 then (False, s1)
              else
                (let s2 = s1\<lparr>pages := (pages s1)[f := (pages s1 ! f)
                               \<lparr>pin_count := pin_count (pages s1 ! f) - 1\<rparr>]\<rparr>
                 in if pin_count (pages s2 ! f) = 0
                    then (True, s2\<lparr>replacer := Unpin (replacer s2) f\<rparr>)
                    else (True, s2))))"

subsection \<open>Runs of an instance\<close>

text \<open>
  The public operations as requests, with the two ways a client changes an instance
  besides them: \<open>FlushAllPages\<close> (with the order in which the page table is walked) and
  a write into the buffer of a frame through the pointer an operation returned.
\<close>

datatype request =
    NewPage
  | FetchPage page_id_t
  | UnpinPage page_id_t bool
  | FlushPage page_id_t
  | FlushAllPages "page_id_t list"
  | DeletePage page_id_t
  | WriteData frame_id_t "byte list"

fun step :: "request \<Rightarrow> BufferPoolManagerInstance \<Rightarrow> BufferPoolManagerInstance" where
  "step NewPage s = snd (NewPgImp s)"
| "step (FetchPage p) s = snd (FetchPgImp s p)"
| "step (UnpinPage p flag) s = snd (UnpinPgImp s p flag)"
| "step (FlushPage p) s = snd (FlushPgImp s p)"
| "step (FlushAllPages order) s = FlushAllPgsImp s order"
| "step (DeletePage p) s = snd (DeletePgImp s p)"
| "step (WriteData f buf) s = s\<lparr>pages := (pages s)[f := (pages s ! f)\<lparr>data := buf\<rparr>]\<rparr>"

fun run :: "request list \<Rightarrow> BufferPoolManagerInstance \<Rightarrow> BufferPoolManagerInstance" where
  "run [] s = s"
| "run (r # rs) s = run rs (step r s)"

text \<open>The page ids that the \<open>NewPage\<close> requests of a run hand out, in order.\<close>

fun allocated :: "request list \<Rightarrow> BufferPoolManagerInstance \<Rightarrow> page_id_t list" where
  "allocated [] s = []"
| "allocated (r # rs) s =
     (case r of
        NewPage \<Rightarrow>
          (case fst (NewPgImp s) of
             None \<Rightarrow> allocated rs (step r s)
           | Some (pid, f) \<Rightarrow> pid # allocated rs (step r s))
      | _ \<Rightarrow> allocated rs (step r s))"

text \<open>
  The states an instance can be in: a freshly constructed one whose constructor
  assertions hold, and every state a request leads to from there.
\<close>

inductive reachable :: "BufferPoolManagerInstance \<Rightarrow> bool" where
  reachable_new:
    "0 < n \<Longrightarrow> idx < n \<Longrightarrow> reachable (BufferPoolManagerInstance_new psize n idx d)"
| reachable_step:
    "reachable s \<Longrightarrow> reachable (step r s)"

text \<open>
  The invariant that the operations maintain: the frame array has \<open>pool_size\<close> slots,
  the free list holds distinct unpinned frames, the replacer's list and index agree and
  hold unpinned frames, a page-table entry points at a frame that carries the page's id
  and is not on the free list, and the allocator counter stays in the instance's
  residue class.
\<close>

definition instance_ok :: "BufferPoolManagerInstance \<Rightarrow> bool" where
  "instance_ok s =
     (length (pages s) = pool_size s \<and>
      distinct (free_list s) \<and>
      (\<forall>f \<in> set (free_list s). f < pool_size s \<and> pin_count (pages s ! f) = 0) \<and>
      replacer_ok (replacer s) \<and>
      (\<forall>f \<in> lru_map (replacer s). f < pool_size s \<and> pin_count (pages s ! f) = 0) \<and>
      (\<forall>p f. page_table s p = Some f \<longrightarrow>
         f < pool_size s \<and> page_id (pages s ! f) = p \<and> f \<notin> set (free_list s)) \<and>
      0 < num_instances s \<and> instance_index s < num_instances s \<and>
      int (instance_index s) \<le> next_page_id s \<and>
      next_page_id s mod int (num_instances s) = int (instance_index s))"

text \<open>
  A second invariant, for the converse direction: the replacer's capacity is the pool
  size, no pin count is negative, and a resident frame with pin count 0 is in the
  replacer.
\<close>

definition pins_ok :: "BufferPoolManagerInstance \<Rightarrow> bool" where
  "pins_ok s =
     (capacity (replacer s) = pool_size s \<and>
      (\<forall>f < pool_size s. 0 \<le> pin_count (pages s ! f)) \<and>
      (\<forall>p f. page_table s p = Some f \<and> pin_count (pages s ! f) = 0 \<longrightarrow>
         f \<in> lru_map (replacer s)))"

section \<open>Parallel buffer pool\<close>

text \<open>
  The pool holds its instances and the round-robin cursor. All instances share one
  disk manager: the pool keeps it in \<open>shared_disk\<close>, hands it to the instance it calls
  and takes it back afterwards.
\<close>

record ParallelBufferPoolManager =
  buffers :: "BufferPoolManagerInstance list"
  last_alloc_index :: nat
  shared_disk :: DiskManager

definition ParallelBufferPoolManager_new ::
  "nat \<Rightarrow> nat \<Rightarrow> DiskManager \<Rightarrow> ParallelBufferPoolManager" where
  "ParallelBufferPoolManager_new n psize d =
     \<lparr>buffers = map (\<lambda>i. BufferPoolManagerInstance_new psize n i d) [0..<n],
      last_alloc_index = 0,
      shared_disk = d\<rparr>"

text \<open>
  The body of the loop of the pool's \<open>NewPgImp\<close>: one call of \<open>NewPage\<close> on the instance
  at \<open>start_index\<close>.
\<close>

definition probe ::
  "ParallelBufferPoolManager \<Rightarrow> nat \<Rightarrow>
     (page_id_t \<times> frame_id_t) option \<times> ParallelBufferPoolManager" where
  "probe pool start_index =
     (case NewPgImp ((buffers pool ! start_index)\<lparr>disk_manager := shared_disk pool\<rparr>) of
        (page, inst) \<Rightarrow>
          (page, pool\<lparr>buffers := (buffers pool)[start_index := inst],
                      shared_disk := disk_manager inst\<rparr>))"

text \<open>
  The loop \<open>for (i = last_alloc_index_; i < last_alloc_index_ + buffers_.size(); i++)\<close>,
  from its counter \<open>i\<close> on. A successful probe bumps the cursor and returns at once;
  the bump after the loop is reached only when every probe failed. The result names
  the instance with the frame. The counter, a 32-bit unsigned integer in the source,
  stays below twice the number of instances and is a natural number here.
\<close>

function NewPg_loop ::
  "ParallelBufferPoolManager \<Rightarrow> nat \<Rightarrow>
     (page_id_t \<times> nat \<times> frame_id_t) option \<times> ParallelBufferPoolManager" where
  "NewPg_loop pool i =
     (if i < last_alloc_index pool + length (buffers pool)
      then
        (case probe pool (i mod length (buffers pool)) of
           (Some (pid, f), pool1) \<Rightarrow>
             (Some (pid, i mod length (buffers pool), f),
              pool1\<lparr>last_alloc_index :=
                       (last_alloc_index pool1 + 1) mod length (buffers pool1)\<rparr>)
         | (None, pool1) \<Rightarrow> NewPg_loop pool1 (i + 1))
      else
        (None,
         pool\<lparr>last_alloc_index := (last_alloc_index pool + 1) mod length (buffers pool)\<rparr>))"
  by pat_completeness auto
termination
  by (relation "measure (\<lambda>(pool, i). last_alloc_index pool + length (buffers pool) - i)")
     (auto simp: probe_def split: prod.splits)

definition Parallel_NewPgImp ::
  "ParallelBufferPoolManager \<Rightarrow>
     (page_id_t \<times> nat \<times> frame_id_t) option \<times> ParallelBufferPoolManager" where
  "Parallel_NewPgImp pool = NewPg_loop pool (last_alloc_index pool)"

section \<open>Example states\<close>

text \<open>
  A disk on which no page has been written, and an instance with one frame that is the
  only instance of its pool. The concrete runs below start from them.
\<close>

definition disk0 :: DiskManager where
  "disk0 = \<lparr>contents = (\<lambda>p. []), io_log = []\<rparr>"

definition fresh1 :: BufferPoolManagerInstance where
  "fresh1 = BufferPoolManagerInstance_new 1 1 0 disk0"

text \<open>
  A pool of two instances with one frame each; the same pool after two \<open>NewPage\<close>
  calls, when both frames are pinned; and that pool after instance 1 has unpinned its
  page, so that only instance 0 is saturated.
\<close>

definition pool2 :: ParallelBufferPoolManager where
  "pool2 = ParallelBufferPoolManager_new 2 1 disk0"

definition pool2_full :: ParallelBufferPoolManager where
  "pool2_full = snd (Parallel_NewPgImp (snd (Parallel_NewPgImp pool2)))"

definition pool2_busy0 :: ParallelBufferPoolManager where
  "pool2_busy0 =
     pool2_full\<lparr>buffers :=
       (buffers pool2_full)[1 := run [UnpinPage 1 False] (buffers pool2_full ! 1)]\<rparr>"

section \<open>Auxiliary facts\<close>

lemmas instance_defs =
  BufferPoolManagerInstance_new_def LRUReplacer_new_def FindPage_def AllocatePage_def
  NewPgImp_def FetchPgImp_def UnpinPgImp_def DeletePgImp_def FlushPgImp_def
  Victim_def Pin_def Unpin_def Size_def WritePage_def ReadPage_def DeallocatePage_def
  disk0_def fresh1_def INVALID_PAGE_ID_def

lemmas pool_defs =
  pool2_def pool2_full_def pool2_busy0_def ParallelBufferPoolManager_new_def
  Parallel_NewPgImp_def probe_def upt_rec

lemma nth_update_self: "xs[i := x] ! i = (if i < length xs then x else xs ! i)"
  by (cases "i < length xs") (simp_all add: list_update_beyond)

lemma Page_all_updates:
  "(pg :: Page)\<lparr>data := a, page_id := b, pin_count := c, is_dirty := d\<rparr> =
   \<lparr>data = a, page_id = b, pin_count = c, is_dirty = d\<rparr>"
  by (cases pg) simp

section \<open>Properties of the replacer\<close>

lemma Pin_ok: "replacer_ok r \<Longrightarrow> replacer_ok (Pin r f)"
  by (auto simp: replacer_ok_def Pin_def)

lemma Pin_map: "lru_map (Pin r f) = lru_map r - {f}"
  by (auto simp: Pin_def)

lemma Unpin_ok: "replacer_ok r \<Longrightarrow> replacer_ok (Unpin r f)"
  by (cases "lru_list r" rule: rev_cases)
     (auto simp: replacer_ok_def Unpin_def Let_def distinct_butlast dest: in_set_butlastD)

lemma Unpin_map: "replacer_ok r \<Longrightarrow> lru_map (Unpin r f) \<subseteq> insert f (lru_map r)"
  by (auto simp: Unpin_def Let_def)

lemma Victim_Some:
  "replacer_ok r \<Longrightarrow> Victim r = (Some f, r1) \<Longrightarrow>
   replacer_ok r1 \<and> f \<in> lru_map r \<and> lru_map r1 = lru_map r - {f}"
  by (cases "lru_list r" rule: rev_cases)
     (auto simp: replacer_ok_def Victim_def split: if_splits)

lemma Victim_ok: "replacer_ok r \<Longrightarrow> replacer_ok (snd (Victim r))"
  by (cases "lru_list r" rule: rev_cases) (auto simp: replacer_ok_def Victim_def)

lemma replacer_reachable_ok: "replacer_reachable r \<Longrightarrow> replacer_ok r"
proof (induction rule: replacer_reachable.induct)
  case (replacer_new num_pages)
  show ?case by (simp add: replacer_ok_def LRUReplacer_new_def)
qed (simp_all add: Victim_ok Pin_ok Unpin_ok)

lemma Unpin_all_fields:
  "replacer_ok r \<Longrightarrow> distinct fs \<Longrightarrow> set fs \<inter> set (lru_list r) = {} \<Longrightarrow>
   length (lru_list r) + length fs \<le> capacity r \<Longrightarrow>
   lru_list (Unpin_all r fs) = rev fs @ lru_list r \<and>
   lru_map (Unpin_all r fs) = set fs \<union> lru_map r \<and>
   capacity (Unpin_all r fs) = capacity r"
proof (induction fs arbitrary: r)
  case Nil
  then show ?case by simp
next
  case (Cons f fs)
  from Cons.prems have f_new: "f \<notin> lru_map r" and room: "length (lru_list r) < capacity r"
    by (auto simp: replacer_ok_def)
  then have u: "Unpin r f = r\<lparr>lru_list := f # lru_list r, lru_map := insert f (lru_map r)\<rparr>"
    by (simp add: Unpin_def Size_def)
  have "replacer_ok (Unpin r f)"
    using Cons.prems by (auto simp: u replacer_ok_def)
  moreover have "distinct fs" "set fs \<inter> set (lru_list (Unpin r f)) = {}"
    "length (lru_list (Unpin r f)) + length fs \<le> capacity (Unpin r f)"
    using Cons.prems by (auto simp: u)
  ultimately have "lru_list (Unpin_all (Unpin r f) fs) = rev fs @ lru_list (Unpin r f) \<and>
      lru_map (Unpin_all (Unpin r f) fs) = set fs \<union> lru_map (Unpin r f) \<and>
      capacity (Unpin_all (Unpin r f) fs) = capacity (Unpin r f)"
    by (rule Cons.IH)
  then show ?case by (simp add: u)
qed

lemma Victim_nonempty:
  "replacer_ok r \<Longrightarrow> lru_list r = xs @ [x] \<Longrightarrow>
   Victim r = (Some x, r\<lparr>lru_list := xs, lru_map := set xs\<rparr>)"
  by (auto simp: Victim_def replacer_ok_def)

lemma Victim_n_drains:
  "replacer_ok r \<Longrightarrow> lru_list r = xs \<Longrightarrow>
   Victim_n (length xs) r = (map Some (rev xs), r\<lparr>lru_list := [], lru_map := {}\<rparr>)"
proof (induction xs arbitrary: r rule: rev_induct)
  case Nil
  then show ?case by (simp add: replacer_ok_def)
next
  case (snoc x xs)
  let ?r1 = "r\<lparr>lru_list := xs, lru_map := set xs\<rparr>"
  have v: "Victim r = (Some x, ?r1)"
    using snoc.prems by (rule Victim_nonempty)
  have "replacer_ok ?r1" "lru_list ?r1 = xs"
    using snoc.prems by (auto simp: replacer_ok_def)
  then have "Victim_n (length xs) ?r1 = (map Some (rev xs), ?r1\<lparr>lru_list := [], lru_map := {}\<rparr>)"
    by (rule snoc.IH)
  then show ?case by (simp add: v)
qed

text \<open>
  Claim C6, as the code has it. In every state of a replacer, \<open>Victim\<close> reports no
  victim exactly when the list is empty and otherwise removes and returns the back
  element. After \<open>Unpin\<close> calls on distinct absent frames \<open>fs\<close> that fit within the
  capacity, draining the replacer returns the frames that were already there, oldest
  first, and then \<open>fs\<close> in the order of the calls; on a replacer that was empty,
  \<open>length fs\<close> calls of \<open>Victim\<close> return exactly \<open>fs\<close> in order. The bound on the
  capacity is needed: at capacity, \<open>Unpin\<close> drops the back element.
\<close>

theorem C6_victims_in_unpin_order:
  "replacer_reachable r \<Longrightarrow> distinct fs \<Longrightarrow> set fs \<inter> set (lru_list r) = {} \<Longrightarrow>
   length (lru_list r) + length fs \<le> capacity r \<Longrightarrow>
   (fst (Victim r) = None \<longleftrightarrow> lru_list r = []) \<and>
   (lru_list r \<noteq> [] \<longrightarrow>
      fst (Victim r) = Some (last (lru_list r)) \<and>
      lru_list (snd (Victim r)) = butlast (lru_list r) \<and>
      lru_map (snd (Victim r)) = lru_map r - {last (lru_list r)}) \<and>
   Victim_n (length (lru_list r) + length fs) (Unpin_all r fs) =
     (map Some (rev (lru_list r) @ fs), r\<lparr>lru_list := [], lru_map := {}\<rparr>) \<and>
   (lru_list r = [] \<longrightarrow> Victim_n (length fs) (Unpin_all r fs) = (map Some fs, r))"
proof -
  assume re: "replacer_reachable r" and d: "distinct fs"
    and fresh: "set fs \<inter> set (lru_list r) = {}"
    and room: "length (lru_list r) + length fs \<le> capacity r"
  from re have ok: "replacer_ok r" by (rule replacer_reachable_ok)
  let ?u = "Unpin_all r fs"
  have fields: "lru_list ?u = rev fs @ lru_list r" "lru_map ?u = set fs \<union> lru_map r"
    "capacity ?u = capacity r"
    using Unpin_all_fields [OF ok d fresh room] by simp_all
  have ok_u: "replacer_ok ?u"
    using ok d fresh by (auto simp: replacer_ok_def fields)
  have "Victim_n (length (rev fs @ lru_list r)) ?u =
      (map Some (rev (rev fs @ lru_list r)), ?u\<lparr>lru_list := [], lru_map := {}\<rparr>)"
    using ok_u fields(1) by (rule Victim_n_drains)
  moreover have "?u\<lparr>lru_list := [], lru_map := {}\<rparr> = r\<lparr>lru_list := [], lru_map := {}\<rparr>"
    using fields(3) by (cases r, cases ?u) simp
  ultimately have drain:
    "Victim_n (length (lru_list r) + length fs) ?u =
       (map Some (rev (lru_list r) @ fs), r\<lparr>lru_list := [], lru_map := {}\<rparr>)"
    by (simp add: add.commute)
  have empty: "lru_list r = [] \<longrightarrow> Victim_n (length fs) ?u = (map Some fs, r)"
  proof
    assume e: "lru_list r = []"
    then have "r\<lparr>lru_list := [], lru_map := {}\<rparr> = r"
      using ok by (cases r) (simp add: replacer_ok_def)
    with drain e show "Victim_n (length fs) ?u = (map Some fs, r)" by simp
  qed
  have v1: "fst (Victim r) = None \<longleftrightarrow> lru_list r = []"
    using ok by (auto simp: Victim_def replacer_ok_def)
  have v2: "lru_list r \<noteq> [] \<longrightarrow>
      fst (Victim r) = Some (last (lru_list r)) \<and>
      lru_list (snd (Victim r)) = butlast (lru_list r) \<and>
      lru_map (snd (Victim r)) = lru_map r - {last (lru_list r)}"
    using ok by (auto simp: Victim_def replacer_ok_def)
  from v1 v2 drain empty show ?thesis by blast
qed

text \<open>
  The theorem at a new replacer of capacity 3 with \<open>Unpin 5\<close>, \<open>Unpin 7\<close>, \<open>Unpin 2\<close>:
  three \<open>Victim\<close> calls return 5, 7, 2; and at a replacer of capacity 4 that already
  holds frame 9: four \<open>Victim\<close> calls return 9, 5, 7, 2.
\<close>

theorem C6_victims_in_unpin_order_witness:
  "replacer_reachable (LRUReplacer_new 3) \<and> distinct [5, 7, 2 :: nat] \<and>
   set [5, 7, 2] \<inter> set (lru_list (LRUReplacer_new 3)) = {} \<and>
   length (lru_list (LRUReplacer_new 3)) + length [5, 7, 2 :: nat] \<le> capacity (LRUReplacer_new 3) \<and>
   Victim_n 3 (Unpin_all (LRUReplacer_new 3) [5, 7, 2]) =
     ([Some 5, Some 7, Some 2], LRUReplacer_new 3) \<and>
   replacer_reachable (Unpin (LRUReplacer_new 4) 9) \<and>
   set [5, 7, 2] \<inter> set (lru_list (Unpin (LRUReplacer_new 4) 9)) = {} \<and>
   length (lru_list (Unpin (LRUReplacer_new 4) 9)) + length [5, 7, 2 :: nat]
     \<le> capacity (Unpin (LRUReplacer_new 4) 9) \<and>
   fst (Victim_n 4 (Unpin_all (Unpin (LRUReplacer_new 4) 9) [5, 7, 2])) =
     [Some 9, Some 5, Some 7, Some 2]"
proof -
  have r3: "replacer_reachable (LRUReplacer_new 3)"
    by (rule replacer_new)
  have r4: "replacer_reachable (Unpin (LRUReplacer_new 4) 9)"
    by (rule replacer_Unpin [OF replacer_new]) (simp add: LRUReplacer_new_def)
  show ?thesis
    using r3 r4
      C6_victims_in_unpin_order [OF r3, of "[5, 7, 2]"]
      C6_victims_in_unpin_order [OF r4, of "[5, 7, 2]"]
    by (simp add: LRUReplacer_new_def Unpin_def Size_def numeral_3_eq_3 eval_nat_numeral)
qed

text \<open>
  Claim C6 as stated fails when the calls exceed the capacity: on an empty replacer of
  capacity 1, \<open>Unpin 1\<close> and \<open>Unpin 2\<close> are calls on distinct absent frames, and the two
  \<open>Victim\<close> calls that follow return frame 2 and then no victim, not 1 and 2.
\<close>

theorem C6_capacity_counterexample:
  "fst (Victim_n 2 (Unpin_all (LRUReplacer_new 1) [1, 2])) = [Some 2, None] \<and>
   fst (Victim_n 2 (Unpin_all (LRUReplacer_new 1) [1, 2])) \<noteq> [Some 1, Some 2]"
  by (simp add: LRUReplacer_new_def Unpin_def Size_def Victim_def numeral_2_eq_2)

section \<open>Properties of the instance operations\<close>

text \<open>
  Claim C7. \<open>FlushPgImp\<close> returns false exactly when the page id is \<open>INVALID_PAGE_ID\<close>
  or the page is not resident. When it returns true it has written the buffer of the
  page's frame to disk (the disk holds the buffer, and the write is the one new entry
  of the I/O log) and cleared the frame's dirty bit; the page table, the free list, the
  replacer, and the frame's page id, pin count and buffer are unchanged.
\<close>

theorem C7_FlushPgImp:
  "FlushPgImp s p = (ok, s') \<Longrightarrow>
   (ok = False \<longleftrightarrow> (p = INVALID_PAGE_ID \<or> page_table s p = None)) \<and>
   (ok \<longrightarrow> (\<exists>f. page_table s p = Some f \<and>
      disk_manager s' = WritePage (disk_manager s) p (data (pages s ! f)) \<and>
      contents (disk_manager s') p = data (pages s ! f) \<and>
      io_log (disk_manager s') = io_log (disk_manager s) @ [Write p (data (pages s ! f))] \<and>
      pages s' = (pages s)[f := (pages s ! f)\<lparr>is_dirty := False\<rparr>] \<and>
      (f < length (pages s) \<longrightarrow> is_dirty (pages s' ! f) = False) \<and>
      page_id (pages s' ! f) = page_id (pages s ! f) \<and>
      pin_count (pages s' ! f) = pin_count (pages s ! f) \<and>
      data (pages s' ! f) = data (pages s ! f) \<and>
      page_table s' = page_table s \<and>
      free_list s' = free_list s \<and>
      replacer s' = replacer s))"
  by (auto simp: FlushPgImp_def WritePage_def nth_update_self split: option.splits if_splits)

text \<open>
  The theorem on the one-frame instance after \<open>NewPage\<close> (page 0 resident in frame 0):
  flushing page 0 succeeds and writes the zeroed buffer; flushing page 1 (not resident)
  and \<open>INVALID_PAGE_ID\<close> fail.
\<close>

theorem C7_FlushPgImp_witness:
  "FlushPgImp (run [NewPage] fresh1) 0 =
     (True,
      (run [NewPage] fresh1)
        \<lparr>disk_manager := WritePage (disk_manager (run [NewPage] fresh1)) 0 zero_page\<rparr>) \<and>
   fst (FlushPgImp (run [NewPage] fresh1) 1) = False \<and>
   fst (FlushPgImp (run [NewPage] fresh1) INVALID_PAGE_ID) = False"
  using C7_FlushPgImp [of "run [NewPage] fresh1" 0 True
      "(run [NewPage] fresh1)
        \<lparr>disk_manager := WritePage (disk_manager (run [NewPage] fresh1)) 0 zero_page\<rparr>"]
  by (simp add: instance_defs)

text \<open>
  Claim C8. \<open>DeletePgImp\<close> on a page that is not resident returns true and changes
  nothing; on a resident page with a positive pin count it returns false and changes
  nothing; otherwise it returns true, having written the frame back if it was dirty,
  called \<open>DeallocatePage\<close>, removed the page-table entry, reset the frame
  (\<open>INVALID_PAGE_ID\<close>, pin count 0, clean, zeroed buffer) and appended the frame at the
  back of the free list.
\<close>

theorem C8_DeletePgImp:
  "DeletePgImp s p = (ok, s') \<Longrightarrow>
   (page_table s p = None \<longrightarrow> ok \<and> s' = s) \<and>
   (\<forall>f. page_table s p = Some f \<and> pin_count (pages s ! f) > 0 \<longrightarrow> \<not> ok \<and> s' = s) \<and>
   (\<forall>f. page_table s p = Some f \<and> \<not> pin_count (pages s ! f) > 0 \<longrightarrow>
      ok \<and>
      io_log (disk_manager s') =
        io_log (disk_manager s) @
        (if is_dirty (pages s ! f) then [Write p (data (pages s ! f))] else []) @ [Dealloc p] \<and>
      contents (disk_manager s') =
        (if is_dirty (pages s ! f) then (contents (disk_manager s))(p := data (pages s ! f))
         else contents (disk_manager s)) \<and>
      page_table s' = (page_table s)(p := None) \<and>
      pages s' = (pages s)[f :=
        \<lparr>data = zero_page, page_id = INVALID_PAGE_ID, pin_count = 0, is_dirty = False\<rparr>] \<and>
      free_list s' = free_list s @ [f] \<and>
      replacer s' = replacer s \<and>
      next_page_id s' = next_page_id s)"
  by (auto simp: DeletePgImp_def WritePage_def DeallocatePage_def Page_all_updates
           split: option.splits if_splits)

text \<open>
  The theorem on the one-frame instance: after \<open>NewPage\<close> and \<open>UnpinPage 0 True\<close> the
  dirty page 0 is deleted (written back, deallocated, frame 0 on the free list); while
  page 0 is still pinned the deletion is refused; deleting page 7, never seen, succeeds
  and changes nothing.
\<close>

theorem C8_DeletePgImp_witness:
  "page_table (run [NewPage, UnpinPage 0 True] fresh1) 0 = Some 0 \<and>
   \<not> pin_count (pages (run [NewPage, UnpinPage 0 True] fresh1) ! 0) > 0 \<and>
   fst (DeletePgImp (run [NewPage, UnpinPage 0 True] fresh1) 0) \<and>
   free_list (snd (DeletePgImp (run [NewPage, UnpinPage 0 True] fresh1) 0)) = [0] \<and>
   io_log (disk_manager (snd (DeletePgImp (run [NewPage, UnpinPage 0 True] fresh1) 0))) =
     [Write 0 zero_page, Write 0 zero_page, Dealloc 0] \<and>
   page_table (run [NewPage] fresh1) 0 = Some 0 \<and>
   pin_count (pages (run [NewPage] fresh1) ! 0) > 0 \<and>
   DeletePgImp (run [NewPage] fresh1) 0 = (False, run [NewPage] fresh1) \<and>
   page_table (run [NewPage] fresh1) 7 = None \<and>
   DeletePgImp (run [NewPage] fresh1) 7 = (True, run [NewPage] fresh1)"
  using
    C8_DeletePgImp [of "run [NewPage, UnpinPage 0 True] fresh1" 0
      "fst (DeletePgImp (run [NewPage, UnpinPage 0 True] fresh1) 0)"
      "snd (DeletePgImp (run [NewPage, UnpinPage 0 True] fresh1) 0)"]
    C8_DeletePgImp [of "run [NewPage] fresh1" 0
      "fst (DeletePgImp (run [NewPage] fresh1) 0)"
      "snd (DeletePgImp (run [NewPage] fresh1) 0)"]
    C8_DeletePgImp [of "run [NewPage] fresh1" 7
      "fst (DeletePgImp (run [NewPage] fresh1) 7)"
      "snd (DeletePgImp (run [NewPage] fresh1) 7)"]
  by (simp add: instance_defs)

text \<open>
  Claim C9. When \<open>NewPgImp\<close> returns no page, the instance is exactly as it was: no page
  id is consumed (\<open>next_page_id\<close> is unchanged), and the page table, the free list, the
  replacer, the frames and the disk are unchanged.
\<close>

theorem C9_NewPgImp_failure_atomic:
  "NewPgImp s = (None, s') \<Longrightarrow>
   s' = s \<and> next_page_id s' = next_page_id s \<and> page_table s' = page_table s \<and>
   free_list s' = free_list s \<and> replacer s' = replacer s \<and> pages s' = pages s \<and>
   disk_manager s' = disk_manager s"
  by (auto simp: NewPgImp_def FindPage_def Victim_def AllocatePage_def
           split: list.splits if_splits prod.splits option.splits)

text \<open>
  The theorem on the one-frame instance whose only frame is pinned by a first
  \<open>NewPage\<close>: the second \<open>NewPage\<close> fails, and the next page id stays 1.
\<close>

theorem C9_NewPgImp_failure_atomic_witness:
  "NewPgImp (run [NewPage] fresh1) = (None, run [NewPage] fresh1) \<and>
   next_page_id (snd (NewPgImp (run [NewPage] fresh1))) = 1"
  using C9_NewPgImp_failure_atomic [of "run [NewPage] fresh1" "run [NewPage] fresh1"]
  by (simp add: instance_defs)

text \<open>
  Claim C10. \<open>FetchPgImp\<close> on a resident page returns its frame and performs no disk
  I/O (the disk manager, with its log, is unchanged); the page table, the free list and
  every other frame are unchanged; of the page's frame only the pin count changes, by
  one; and the replacer is the old one after \<open>Pin\<close> of the frame, that is, without the
  frame.
\<close>

theorem C10_FetchPgImp_resident:
  "page_table s p = Some f \<Longrightarrow> FetchPgImp s p = (r, s') \<Longrightarrow>
   r = Some f \<and>
   disk_manager s' = disk_manager s \<and>
   page_table s' = page_table s \<and>
   free_list s' = free_list s \<and>
   next_page_id s' = next_page_id s \<and>
   pages s' = (pages s)[f := (pages s ! f)\<lparr>pin_count := pin_count (pages s ! f) + 1\<rparr>] \<and>
   (f < length (pages s) \<longrightarrow> pin_count (pages s' ! f) = pin_count (pages s ! f) + 1) \<and>
   data (pages s' ! f) = data (pages s ! f) \<and>
   is_dirty (pages s' ! f) = is_dirty (pages s ! f) \<and>
   page_id (pages s' ! f) = page_id (pages s ! f) \<and>
   (\<forall>g. g \<noteq> f \<longrightarrow> pages s' ! g = pages s ! g) \<and>
   replacer s' = Pin (replacer s) f \<and>
   capacity (replacer s') = capacity (replacer s) \<and>
   lru_map (replacer s') = lru_map (replacer s) - {f} \<and>
   (replacer_ok (replacer s) \<longrightarrow>
      lru_list (replacer s') = remove1 f (lru_list (replacer s)) \<and>
      f \<notin> set (lru_list (replacer s')))"
  by (auto simp: FetchPgImp_def Pin_def replacer_ok_def nth_update_self remove1_idem
           split: if_splits)

text \<open>
  The theorem on the one-frame instance after \<open>NewPage\<close> and \<open>UnpinPage 0 False\<close>:
  page 0 is resident and unpinned, frame 0 is in the replacer; fetching page 0 pins it
  again, takes frame 0 out of the replacer and leaves the disk manager alone.
\<close>

theorem C10_FetchPgImp_resident_witness:
  "page_table (run [NewPage, UnpinPage 0 False] fresh1) 0 = Some 0 \<and>
   lru_list (replacer (run [NewPage, UnpinPage 0 False] fresh1)) = [0] \<and>
   fst (FetchPgImp (run [NewPage, UnpinPage 0 False] fresh1) 0) = Some 0 \<and>
   pin_count (pages (snd (FetchPgImp (run [NewPage, UnpinPage 0 False] fresh1) 0)) ! 0) = 1 \<and>
   lru_list (replacer (snd (FetchPgImp (run [NewPage, UnpinPage 0 False] fresh1) 0))) = [] \<and>
   disk_manager (snd (FetchPgImp (run [NewPage, UnpinPage 0 False] fresh1) 0)) =
     disk_manager (run [NewPage, UnpinPage 0 False] fresh1)"
  using C10_FetchPgImp_resident [of "run [NewPage, UnpinPage 0 False] fresh1" 0 0
      "fst (FetchPgImp (run [NewPage, UnpinPage 0 False] fresh1) 0)"
      "snd (FetchPgImp (run [NewPage, UnpinPage 0 False] fresh1) 0)"]
  by (simp add: instance_defs)

text \<open>
  Claim C3, as the code has it. \<open>UnpinPgImp\<close> returns false exactly when the page is
  not resident or the pin count of its frame is zero. For a page that is not resident
  the state is unchanged. For a resident page whose pin count is zero the flag is still
  ORed into the frame's dirty bit (the source sets the bit before it tests the pin
  count) and nothing else changes. Otherwise the call returns true, ORs the flag into
  the dirty bit, decrements the pin count and, when the count reaches zero, calls
  \<open>Unpin\<close> on the replacer for the frame.
\<close>

theorem C3_UnpinPgImp:
  "UnpinPgImp s p flag = (ok, s') \<Longrightarrow>
   (ok = False \<longleftrightarrow>
      (page_table s p = None \<or> (\<exists>f. page_table s p = Some f \<and> pin_count (pages s ! f) = 0))) \<and>
   (page_table s p = None \<longrightarrow> s' = s) \<and>
   (\<forall>f. page_table s p = Some f \<and> pin_count (pages s ! f) = 0 \<longrightarrow>
      s' = s\<lparr>pages := (pages s)[f := (pages s ! f)
                \<lparr>is_dirty := is_dirty (pages s ! f) \<or> flag\<rparr>]\<rparr>) \<and>
   (\<forall>f. page_table s p = Some f \<and> pin_count (pages s ! f) \<noteq> 0 \<and> f < length (pages s) \<longrightarrow>
      s' = s\<lparr>pages := (pages s)[f := (pages s ! f)
                \<lparr>is_dirty := is_dirty (pages s ! f) \<or> flag,
                 pin_count := pin_count (pages s ! f) - 1\<rparr>],
              replacer := (if pin_count (pages s ! f) = 1
                           then Unpin (replacer s) f else replacer s)\<rparr>)"
  by (auto simp: UnpinPgImp_def Let_def nth_update_self split: option.splits if_splits)

text \<open>
  The theorem on the one-frame instance: unpinning page 42, never seen, fails and
  changes nothing; after \<open>NewPage\<close>, \<open>UnpinPage 0 True\<close> succeeds, marks frame 0 dirty,
  drops its pin count to 0 and puts it into the replacer; unpinning page 0 once more with
  a false flag fails and changes nothing.
\<close>

theorem C3_UnpinPgImp_witness:
  "UnpinPgImp fresh1 42 False = (False, fresh1) \<and>
   fst (UnpinPgImp (run [NewPage] fresh1) 0 True) \<and>
   is_dirty (pages (snd (UnpinPgImp (run [NewPage] fresh1) 0 True)) ! 0) \<and>
   pin_count (pages (snd (UnpinPgImp (run [NewPage] fresh1) 0 True)) ! 0) = 0 \<and>
   lru_list (replacer (snd (UnpinPgImp (run [NewPage] fresh1) 0 True))) = [0] \<and>
   \<not> fst (UnpinPgImp (run [NewPage, UnpinPage 0 False] fresh1) 0 False) \<and>
   snd (UnpinPgImp (run [NewPage, UnpinPage 0 False] fresh1) 0 False) =
     run [NewPage, UnpinPage 0 False] fresh1"
  using
    C3_UnpinPgImp [of fresh1 42 False "fst (UnpinPgImp fresh1 42 False)"
      "snd (UnpinPgImp fresh1 42 False)"]
    C3_UnpinPgImp [of "run [NewPage] fresh1" 0 True
      "fst (UnpinPgImp (run [NewPage] fresh1) 0 True)"
      "snd (UnpinPgImp (run [NewPage] fresh1) 0 True)"]
    C3_UnpinPgImp [of "run [NewPage, UnpinPage 0 False] fresh1" 0 False
      "fst (UnpinPgImp (run [NewPage, UnpinPage 0 False] fresh1) 0 False)"
      "snd (UnpinPgImp (run [NewPage, UnpinPage 0 False] fresh1) 0 False)"]
  by (simp add: instance_defs)

text \<open>
  Claim C3 as stated fails: on the one-frame instance after \<open>NewPage\<close> and
  \<open>UnpinPage 0 False\<close> (page 0 resident, clean, pin count 0), \<open>UnpinPage 0 True\<close>
  returns false and yet leaves frame 0 dirty, so the state has changed.
\<close>

theorem C3_dirty_bit_counterexample:
  "fst (UnpinPgImp (run [NewPage, UnpinPage 0 False] fresh1) 0 True) = False \<and>
   is_dirty (pages (run [NewPage, UnpinPage 0 False] fresh1) ! 0) = False \<and>
   is_dirty (pages (snd (UnpinPgImp (run [NewPage, UnpinPage 0 False] fresh1) 0 True)) ! 0) = True \<and>
   snd (UnpinPgImp (run [NewPage, UnpinPage 0 False] fresh1) 0 True) \<noteq>
     run [NewPage, UnpinPage 0 False] fresh1"
  by (simp add: instance_defs)

text \<open>
  Claim C1 does not hold of the code: \<open>DeletePgImp\<close> never calls the replacer. On the
  one-frame instance, \<open>NewPage\<close> (page 0 in frame 0), \<open>UnpinPage 0 False\<close> and
  \<open>DeletePage 0\<close> all succeed; afterwards the page table is empty and frame 0 is on
  the free list, and frame 0 is still in the replacer.
\<close>

theorem C1_DeletePgImp_leaves_frame_in_replacer:
  "fst (NewPgImp fresh1) = Some (0, 0) \<and>
   fst (UnpinPgImp (run [NewPage] fresh1) 0 False) = True \<and>
   fst (DeletePgImp (run [NewPage, UnpinPage 0 False] fresh1) 0) = True \<and>
   page_table (run [NewPage, UnpinPage 0 False, DeletePage 0] fresh1) = Map.empty \<and>
   free_list (run [NewPage, UnpinPage 0 False, DeletePage 0] fresh1) = [0] \<and>
   lru_list (replacer (run [NewPage, UnpinPage 0 False, DeletePage 0] fresh1)) = [0] \<and>
   0 \<in> lru_map (replacer (run [NewPage, UnpinPage 0 False, DeletePage 0] fresh1))"
  by (simp add: instance_defs)

section \<open>Properties of the parallel pool\<close>

lemma probe_keeps:
  "probe pool k = (r, pool1) \<Longrightarrow>
   last_alloc_index pool1 = last_alloc_index pool \<and>
   length (buffers pool1) = length (buffers pool)"
  by (auto simp: probe_def split: prod.splits)

lemma NewPg_loop_cursor:
  "last_alloc_index (snd (NewPg_loop pool i)) =
     (last_alloc_index pool + 1) mod length (buffers pool) \<and>
   length (buffers (snd (NewPg_loop pool i))) = length (buffers pool)"
proof (induction pool i rule: NewPg_loop.induct)
  case (1 pool i)
  show ?case
  proof (cases "i < last_alloc_index pool + length (buffers pool)")
    case False
    then show ?thesis by (subst NewPg_loop.simps, subst (2) NewPg_loop.simps) simp
  next
    case True
    obtain r pool1 where pr: "probe pool (i mod length (buffers pool)) = (r, pool1)"
      by (cases "probe pool (i mod length (buffers pool))")
    note keep = probe_keeps [OF pr]
    show ?thesis
    proof (cases r)
      case None
      have "last_alloc_index (snd (NewPg_loop pool1 (i + 1))) =
          (last_alloc_index pool1 + 1) mod length (buffers pool1) \<and>
        length (buffers (snd (NewPg_loop pool1 (i + 1)))) = length (buffers pool1)"
        using True pr None by (intro "1.IH" [of r pool1]) simp_all
      with True pr None keep show ?thesis
        by (subst NewPg_loop.simps, subst (2) NewPg_loop.simps) simp
    next
      case (Some a)
      with True pr keep show ?thesis
        by (subst NewPg_loop.simps, subst (2) NewPg_loop.simps) (simp split: prod.splits)
    qed
  qed
qed

text \<open>
  Claim C2. Every call of the pool's \<open>NewPgImp\<close> on a pool with at least one instance
  leaves the cursor at \<open>(last_alloc_index + 1) mod num_instances\<close>, whatever the result:
  a successful probe bumps the cursor once and returns from inside the loop, and the
  bump after the loop is reached only when the whole sweep failed.
\<close>

theorem C2_cursor_advances_by_one:
  "buffers pool \<noteq> [] \<Longrightarrow> Parallel_NewPgImp pool = (r, pool') \<Longrightarrow>
   last_alloc_index pool' = (last_alloc_index pool + 1) mod length (buffers pool) \<and>
   length (buffers pool') = length (buffers pool) \<and>
   last_alloc_index pool' < length (buffers pool')"
  using NewPg_loop_cursor [of pool "last_alloc_index pool"]
  by (simp add: Parallel_NewPgImp_def)

text \<open>
  The theorem on three pools of two one-frame instances, each with the cursor at 0: the
  fresh pool (instance 0 succeeds), the pool with both frames pinned (the sweep fails)
  and the pool where only instance 0 is saturated (instance 1 succeeds on the second
  probe). The cursor ends at 1 every time.
\<close>

theorem C2_cursor_advances_by_one_witness:
  "buffers pool2 \<noteq> [] \<and>
   fst (Parallel_NewPgImp pool2) = Some (0, 0, 0) \<and>
   last_alloc_index pool2 = 0 \<and>
   last_alloc_index (snd (Parallel_NewPgImp pool2)) = 1 \<and>
   buffers pool2_full \<noteq> [] \<and>
   last_alloc_index pool2_full = 0 \<and>
   fst (Parallel_NewPgImp pool2_full) = None \<and>
   last_alloc_index (snd (Parallel_NewPgImp pool2_full)) = 1 \<and>
   buffers pool2_busy0 \<noteq> [] \<and>
   last_alloc_index pool2_busy0 = 0 \<and>
   fst (Parallel_NewPgImp pool2_busy0) = Some (3, 1, 0) \<and>
   last_alloc_index (snd (Parallel_NewPgImp pool2_busy0)) = 1"
  using
    C2_cursor_advances_by_one [of pool2 "fst (Parallel_NewPgImp pool2)"
      "snd (Parallel_NewPgImp pool2)"]
    C2_cursor_advances_by_one [of pool2_full "fst (Parallel_NewPgImp pool2_full)"
      "snd (Parallel_NewPgImp pool2_full)"]
    C2_cursor_advances_by_one [of pool2_busy0 "fst (Parallel_NewPgImp pool2_busy0)"
      "snd (Parallel_NewPgImp pool2_busy0)"]
  by (simp add: pool_defs instance_defs)

section \<open>The invariant of an instance\<close>

text \<open>
  Every reachable state satisfies \<open>instance_ok\<close>: the constructor establishes it and each
  request preserves it. \<open>FindPage\<close> hands out a frame that is in range, unpinned, off the
  free list and without a page-table entry; installing a page in such a frame, and
  changing the metadata of a resident frame, keep the invariant.
\<close>

lemma instance_ok_new:
  "0 < n \<Longrightarrow> idx < n \<Longrightarrow> instance_ok (BufferPoolManagerInstance_new psize n idx d)"
  by (simp add: instance_ok_def BufferPoolManagerInstance_new_def LRUReplacer_new_def
        replacer_ok_def)

lemma FindPage_Some:
  assumes ok: "instance_ok s" and fp: "FindPage s = (Some f, s1)"
  shows "instance_ok s1 \<and> f < pool_size s1 \<and> pin_count (pages s1 ! f) = 0 \<and>
    f \<notin> set (free_list s1) \<and> (\<forall>p. page_table s1 p \<noteq> Some f) \<and>
    pages s1 = pages s \<and> next_page_id s1 = next_page_id s \<and>
    num_instances s1 = num_instances s \<and> instance_index s1 = instance_index s \<and>
    pool_size s1 = pool_size s"
proof (cases "free_list s")
  case (Cons g rest)
  with fp have f: "g = f" and s1: "s1 = s\<lparr>free_list := rest\<rparr>"
    by (simp_all add: FindPage_def)
  from ok Cons show ?thesis
    unfolding s1 f instance_ok_def by auto
next
  case Nil
  with fp obtain r where v: "Victim (replacer s) = (Some f, r)"
    and s1: "s1 = s\<lparr>replacer := r,
        disk_manager :=
          (if is_dirty (pages s ! f)
           then WritePage (disk_manager s) (page_id (pages s ! f)) (data (pages s ! f))
           else disk_manager s),
        page_table := (page_table s)(page_id (pages s ! f) := None)\<rparr>"
    by (auto simp: FindPage_def split: prod.splits option.splits)
  from ok have "replacer_ok (replacer s)" by (simp add: instance_ok_def)
  from Victim_Some [OF this v] have r: "replacer_ok r" "f \<in> lru_map (replacer s)"
    "lru_map r = lru_map (replacer s) - {f}" by simp_all
  from ok Nil r show ?thesis
    unfolding s1 instance_ok_def by auto
qed

lemma FindPage_None: "FindPage s = (None, s1) \<Longrightarrow> s1 = s"
  by (auto simp: FindPage_def Victim_def split: list.splits if_splits prod.splits option.splits)

lemma install_ok:
  assumes ok: "instance_ok s1" and f: "f < pool_size s1" "f \<notin> set (free_list s1)"
    "\<forall>p. page_table s1 p \<noteq> Some f"
    and pg: "page_id (pages s2 ! f) = pid"
    and pt: "\<forall>p g. page_table s2 p = Some g \<longrightarrow> (p = pid \<and> g = f) \<or> page_table s1 p = Some g"
    and npi: "int (instance_index s1) \<le> next_page_id s2"
      "next_page_id s2 mod int (num_instances s1) = int (instance_index s1)"
    and fields: "pages s2 = (pages s1)[f := pg]" "replacer s2 = Pin (replacer s1) f"
      "free_list s2 = free_list s1" "pool_size s2 = pool_size s1"
      "num_instances s2 = num_instances s1" "instance_index s2 = instance_index s1"
  shows "instance_ok s2"
proof -
  have free: "\<forall>g \<in> set (free_list s1). g < pool_size s1 \<and> pin_count ((pages s1)[f := pg] ! g) = 0"
  proof
    fix g assume g: "g \<in> set (free_list s1)"
    with f(2) have "g \<noteq> f" by auto
    with g ok show "g < pool_size s1 \<and> pin_count ((pages s1)[f := pg] ! g) = 0"
      by (simp add: instance_ok_def)
  qed
  have repl: "\<forall>g \<in> lru_map (Pin (replacer s1) f).
      g < pool_size s1 \<and> pin_count ((pages s1)[f := pg] ! g) = 0"
    using ok by (auto simp: instance_ok_def Pin_map)
  have tab: "\<forall>p g. page_table s2 p = Some g \<longrightarrow>
      g < pool_size s1 \<and> page_id ((pages s1)[f := pg] ! g) = p \<and> g \<notin> set (free_list s1)"
  proof (intro allI impI)
    fix p g assume "page_table s2 p = Some g"
    with pt have "(p = pid \<and> g = f) \<or> page_table s1 p = Some g" by blast
    then show "g < pool_size s1 \<and> page_id ((pages s1)[f := pg] ! g) = p \<and> g \<notin> set (free_list s1)"
    proof
      assume "p = pid \<and> g = f"
      with f pg fields(1) show ?thesis by simp
    next
      assume e: "page_table s1 p = Some g"
      with f(3) have "g \<noteq> f" by auto
      with e ok show ?thesis by (auto simp: instance_ok_def)
    qed
  qed
  from ok free repl tab npi show ?thesis
    by (simp add: instance_ok_def Pin_ok fields)
qed

lemma NewPgImp_ok: "instance_ok s \<Longrightarrow> instance_ok (snd (NewPgImp s))"
proof -
  assume ok: "instance_ok s"
  obtain r s1 where fp: "FindPage s = (r, s1)" by (cases "FindPage s")
  show ?thesis
  proof (cases r)
    case None
    with fp have "snd (NewPgImp s) = s1" by (simp add: NewPgImp_def)
    moreover from fp None have "s1 = s" by (simp add: FindPage_None)
    ultimately show ?thesis using ok by simp
  next
    case (Some f)
    note fs = FindPage_Some [OF ok fp [unfolded Some]]
    from fs have ok1: "instance_ok s1" by simp
    show ?thesis
    proof (rule install_ok [OF ok1, of f _ "next_page_id s1"])
      show "f < pool_size s1" "f \<notin> set (free_list s1)"
        "\<forall>p. page_table s1 p \<noteq> Some f" using fs by simp_all
      show "page_id (pages (snd (NewPgImp s)) ! f) = next_page_id s1"
        using fp Some ok1 \<open>f < pool_size s1\<close>
        by (simp add: NewPgImp_def AllocatePage_def instance_ok_def)
      show "\<forall>p g. page_table (snd (NewPgImp s)) p = Some g \<longrightarrow>
          (p = next_page_id s1 \<and> g = f) \<or> page_table s1 p = Some g"
        using fp Some by (auto simp: NewPgImp_def AllocatePage_def)
      show "int (instance_index s1) \<le> next_page_id (snd (NewPgImp s))"
        "next_page_id (snd (NewPgImp s)) mod int (num_instances s1) = int (instance_index s1)"
        using fp Some ok1 by (simp_all add: NewPgImp_def AllocatePage_def instance_ok_def)
      show "pages (snd (NewPgImp s)) = (pages s1)[f := (pages s1 ! f)
          \<lparr>data := zero_page, page_id := next_page_id s1,
           pin_count := pin_count (pages s1 ! f) + 1, is_dirty := False\<rparr>]"
        "replacer (snd (NewPgImp s)) = Pin (replacer s1) f"
        "free_list (snd (NewPgImp s)) = free_list s1"
        "pool_size (snd (NewPgImp s)) = pool_size s1"
        "num_instances (snd (NewPgImp s)) = num_instances s1"
        "instance_index (snd (NewPgImp s)) = instance_index s1"
        using fp Some by (simp_all add: NewPgImp_def AllocatePage_def)
    qed
  qed
qed

lemma touch_ok:
  assumes ok: "instance_ok s" and res: "page_table s p = Some f"
    and pg: "page_id pg = page_id (pages s ! f)"
    and repl: "\<forall>g \<in> lru_map (replacer s2). g \<in> lru_map (replacer s) \<and> g \<noteq> f \<or> g = f \<and> pin_count pg = 0"
      "replacer_ok (replacer s2)"
    and fields: "pages s2 = (pages s)[f := pg]" "page_table s2 = page_table s"
      "free_list s2 = free_list s" "pool_size s2 = pool_size s"
      "num_instances s2 = num_instances s" "instance_index s2 = instance_index s"
      "next_page_id s2 = next_page_id s"
  shows "instance_ok s2"
proof -
  from ok res have f: "f < pool_size s" "f \<notin> set (free_list s)" "length (pages s) = pool_size s"
    by (auto simp: instance_ok_def)
  have free: "\<forall>g \<in> set (free_list s). g < pool_size s \<and> pin_count ((pages s)[f := pg] ! g) = 0"
  proof
    fix g assume g: "g \<in> set (free_list s)"
    with f(2) have "g \<noteq> f" by auto
    with g ok show "g < pool_size s \<and> pin_count ((pages s)[f := pg] ! g) = 0"
      by (simp add: instance_ok_def)
  qed
  have rp: "\<forall>g \<in> lru_map (replacer s2). g < pool_size s \<and> pin_count ((pages s)[f := pg] ! g) = 0"
  proof
    fix g assume "g \<in> lru_map (replacer s2)"
    with repl(1) have "g \<in> lru_map (replacer s) \<and> g \<noteq> f \<or> g = f \<and> pin_count pg = 0" by blast
    then show "g < pool_size s \<and> pin_count ((pages s)[f := pg] ! g) = 0"
      using ok f by (auto simp: instance_ok_def)
  qed
  have tab: "\<forall>q g. page_table s q = Some g \<longrightarrow>
      g < pool_size s \<and> page_id ((pages s)[f := pg] ! g) = q \<and> g \<notin> set (free_list s)"
  proof (intro allI impI)
    fix q g assume e: "page_table s q = Some g"
    show "g < pool_size s \<and> page_id ((pages s)[f := pg] ! g) = q \<and> g \<notin> set (free_list s)"
    proof (cases "g = f")
      case True
      with e ok f pg show ?thesis by (auto simp: instance_ok_def)
    next
      case False
      with e ok show ?thesis by (auto simp: instance_ok_def)
    qed
  qed
  from ok free rp tab repl(2) show ?thesis
    by (simp add: instance_ok_def fields)
qed

lemma FetchPgImp_ok: "instance_ok s \<Longrightarrow> instance_ok (snd (FetchPgImp s p))"
proof -
  assume ok: "instance_ok s"
  show ?thesis
  proof (cases "page_table s p")
    case (Some f)
    show ?thesis
    proof (rule touch_ok [OF ok Some])
      show "page_id ((pages s ! f)\<lparr>pin_count := pin_count (pages s ! f) + 1\<rparr>) = page_id (pages s ! f)"
        by simp
      show "\<forall>g\<in>lru_map (replacer (snd (FetchPgImp s p))).
          g \<in> lru_map (replacer s) \<and> g \<noteq> f \<or>
          g = f \<and> pin_count ((pages s ! f)\<lparr>pin_count := pin_count (pages s ! f) + 1\<rparr>) = 0"
        using Some by (auto simp: FetchPgImp_def Pin_map)
      show "replacer_ok (replacer (snd (FetchPgImp s p)))"
        using Some ok by (simp add: FetchPgImp_def Pin_ok instance_ok_def)
    qed (simp_all add: FetchPgImp_def Some)
  next
    case None
    obtain r s1 where fp: "FindPage s = (r, s1)" by (cases "FindPage s")
    show ?thesis
    proof (cases r)
      case N: None
      with fp None have "snd (FetchPgImp s p) = s1" by (simp add: FetchPgImp_def)
      moreover from fp N have "s1 = s" by (simp add: FindPage_None)
      ultimately show ?thesis using ok by simp
    next
      case (Some f)
      note fs = FindPage_Some [OF ok fp [unfolded Some]]
      from fs have ok1: "instance_ok s1" by simp
      from fs have fr: "f < pool_size s1" by simp
      show ?thesis
      proof (rule install_ok [OF ok1, of f _ p])
        show "f < pool_size s1" "f \<notin> set (free_list s1)"
          "\<forall>q. page_table s1 q \<noteq> Some f" using fs by simp_all
        show "page_id (pages (snd (FetchPgImp s p)) ! f) = p"
          using fp Some None ok1 fr
          by (simp add: FetchPgImp_def ReadPage_def instance_ok_def)
        show "\<forall>q g. page_table (snd (FetchPgImp s p)) q = Some g \<longrightarrow>
            (q = p \<and> g = f) \<or> page_table s1 q = Some g"
          using fp Some None by (auto simp: FetchPgImp_def ReadPage_def split: if_splits)
        show "int (instance_index s1) \<le> next_page_id (snd (FetchPgImp s p))"
          "next_page_id (snd (FetchPgImp s p)) mod int (num_instances s1) = int (instance_index s1)"
          using fp Some None ok1 by (simp_all add: FetchPgImp_def ReadPage_def instance_ok_def)
        show "pages (snd (FetchPgImp s p)) = (pages s1)[f := (pages s1 ! f)
            \<lparr>data := fst (ReadPage
                (if is_dirty (pages s1 ! f)
                 then WritePage (disk_manager s1) (page_id (pages s1 ! f)) (data (pages s1 ! f))
                 else disk_manager s1) p),
             page_id := p,
             pin_count := pin_count (pages s1 ! f) + 1, is_dirty := False\<rparr>]"
          "replacer (snd (FetchPgImp s p)) = Pin (replacer s1) f"
          "free_list (snd (FetchPgImp s p)) = free_list s1"
          "pool_size (snd (FetchPgImp s p)) = pool_size s1"
          "num_instances (snd (FetchPgImp s p)) = num_instances s1"
          "instance_index (snd (FetchPgImp s p)) = instance_index s1"
          using fp Some None by (simp_all add: FetchPgImp_def ReadPage_def)
      qed
    qed
  qed
qed

lemma meta_keep_ok:
  assumes ok: "instance_ok s"
    and len: "length (pages s2) = length (pages s)"
    and meta: "\<forall>g. pin_count (pages s2 ! g) = pin_count (pages s ! g) \<and>
                   page_id (pages s2 ! g) = page_id (pages s ! g)"
    and fields: "page_table s2 = page_table s" "replacer s2 = replacer s"
      "free_list s2 = free_list s" "pool_size s2 = pool_size s"
      "num_instances s2 = num_instances s" "instance_index s2 = instance_index s"
      "next_page_id s2 = next_page_id s"
  shows "instance_ok s2"
  using ok by (simp add: instance_ok_def len meta fields)

lemma nth_update_pin_count:
  "pin_count pg = pin_count (xs ! f) \<Longrightarrow> pin_count (xs[f := pg] ! g) = pin_count (xs ! g)"
  by (cases "g = f") (simp_all add: nth_update_self)

lemma nth_update_page_id:
  "page_id pg = page_id (xs ! f) \<Longrightarrow> page_id (xs[f := pg] ! g) = page_id (xs ! g)"
  by (cases "g = f") (simp_all add: nth_update_self)

lemma flush_entry_ok: "instance_ok s \<Longrightarrow> instance_ok (flush_entry p s)"
  by (erule meta_keep_ok)
     (auto simp: flush_entry_def nth_update_pin_count nth_update_page_id split: option.splits)

lemma FlushAllPgsImp_ok: "instance_ok s \<Longrightarrow> instance_ok (FlushAllPgsImp s order)"
  unfolding FlushAllPgsImp_def
  by (induction order arbitrary: s) (simp_all add: flush_entry_ok)

lemma FlushPgImp_ok: "instance_ok s \<Longrightarrow> instance_ok (snd (FlushPgImp s p))"
  by (erule meta_keep_ok)
     (auto simp: FlushPgImp_def nth_update_pin_count nth_update_page_id split: option.splits)

lemma WriteData_ok:
  "instance_ok s \<Longrightarrow> instance_ok (s\<lparr>pages := (pages s)[f := (pages s ! f)\<lparr>data := buf\<rparr>]\<rparr>)"
  by (erule meta_keep_ok) (auto simp: nth_update_pin_count nth_update_page_id)

lemma UnpinPgImp_ok: "instance_ok s \<Longrightarrow> instance_ok (snd (UnpinPgImp s p flag))"
proof -
  assume ok: "instance_ok s"
  show ?thesis
  proof (cases "page_table s p")
    case None
    with ok show ?thesis by (simp add: UnpinPgImp_def)
  next
    case (Some f)
    with ok have f: "f < length (pages s)" by (auto simp: instance_ok_def)
    from ok have rok: "replacer_ok (replacer s)"
      and pins: "\<forall>g \<in> lru_map (replacer s). pin_count (pages s ! g) = 0"
      by (simp_all add: instance_ok_def)
    let ?s2 = "snd (UnpinPgImp s p flag)"
    show ?thesis
    proof (rule touch_ok [OF ok Some, of "pages ?s2 ! f"])
      show "page_id (pages ?s2 ! f) = page_id (pages s ! f)"
        using Some f by (simp add: UnpinPgImp_def Let_def)
      show "\<forall>g\<in>lru_map (replacer ?s2).
          g \<in> lru_map (replacer s) \<and> g \<noteq> f \<or> g = f \<and> pin_count (pages ?s2 ! f) = 0"
        using Some f pins Unpin_map [OF rok, of f]
        by (auto simp: UnpinPgImp_def Let_def)
      show "replacer_ok (replacer ?s2)"
        using Some rok by (simp add: UnpinPgImp_def Let_def Unpin_ok)
      show "pages ?s2 = (pages s)[f := pages ?s2 ! f]"
        using Some f by (simp add: UnpinPgImp_def Let_def)
    qed (simp_all add: UnpinPgImp_def Let_def Some)
  qed
qed

lemma DeletePgImp_ok: "instance_ok s \<Longrightarrow> instance_ok (snd (DeletePgImp s p))"
proof -
  assume ok: "instance_ok s"
  show ?thesis
  proof (cases "page_table s p")
    case None
    with ok show ?thesis by (simp add: DeletePgImp_def)
  next
    case (Some f)
    show ?thesis
    proof (cases "pin_count (pages s ! f) > 0")
      case True
      with Some ok show ?thesis by (simp add: DeletePgImp_def)
    next
      case False
      let ?pg = "(pages s ! f)\<lparr>data := zero_page, page_id := INVALID_PAGE_ID,
                     pin_count := 0, is_dirty := False\<rparr>"
      let ?s2 = "snd (DeletePgImp s p)"
      have fields: "pages ?s2 = (pages s)[f := ?pg]" "page_table ?s2 = (page_table s)(p := None)"
        "free_list ?s2 = free_list s @ [f]" "replacer ?s2 = replacer s"
        "pool_size ?s2 = pool_size s" "num_instances ?s2 = num_instances s"
        "instance_index ?s2 = instance_index s" "next_page_id ?s2 = next_page_id s"
        using Some False by (simp_all add: DeletePgImp_def)
      from ok Some have f: "f < pool_size s" "f \<notin> set (free_list s)"
        "length (pages s) = pool_size s" "page_id (pages s ! f) = p"
        by (auto simp: instance_ok_def)
      have free: "\<forall>g \<in> set (free_list s @ [f]).
          g < pool_size s \<and> pin_count ((pages s)[f := ?pg] ! g) = 0"
      proof
        fix g assume "g \<in> set (free_list s @ [f])"
        then have "g = f \<or> g \<noteq> f \<and> g \<in> set (free_list s)" by auto
        then show "g < pool_size s \<and> pin_count ((pages s)[f := ?pg] ! g) = 0"
          using ok f by (auto simp: instance_ok_def)
      qed
      have rp: "\<forall>g \<in> lru_map (replacer s).
          g < pool_size s \<and> pin_count ((pages s)[f := ?pg] ! g) = 0"
      proof
        fix g assume "g \<in> lru_map (replacer s)"
        then show "g < pool_size s \<and> pin_count ((pages s)[f := ?pg] ! g) = 0"
          using ok f by (cases "g = f") (auto simp: instance_ok_def)
      qed
      have tab: "\<forall>q g. ((page_table s)(p := None)) q = Some g \<longrightarrow>
          g < pool_size s \<and> page_id ((pages s)[f := ?pg] ! g) = q \<and>
          g \<notin> set (free_list s @ [f])"
      proof (intro allI impI)
        fix q g assume "((page_table s)(p := None)) q = Some g"
        then have q: "q \<noteq> p" "page_table s q = Some g" by (auto split: if_splits)
        with ok have g: "g < pool_size s" "page_id (pages s ! g) = q" "g \<notin> set (free_list s)"
          by (auto simp: instance_ok_def)
        with q f have "g \<noteq> f" by auto
        with g show "g < pool_size s \<and> page_id ((pages s)[f := ?pg] ! g) = q \<and>
          g \<notin> set (free_list s @ [f])" by simp
      qed
      from ok f free rp tab show ?thesis
        by (simp add: instance_ok_def fields)
    qed
  qed
qed

lemma step_ok: "instance_ok s \<Longrightarrow> instance_ok (step r s)"
  by (cases r)
     (simp_all add: NewPgImp_ok FetchPgImp_ok UnpinPgImp_ok FlushPgImp_ok FlushAllPgsImp_ok
        DeletePgImp_ok WriteData_ok)

lemma reachable_ok: "reachable s \<Longrightarrow> instance_ok s"
  by (induction rule: reachable.induct) (simp_all add: instance_ok_new step_ok)

section \<open>New pages and page-id allocation\<close>

lemma reachable_run: "reachable s \<Longrightarrow> reachable (run rs s)"
  by (induction rs arbitrary: s) (simp_all add: reachable_step)

lemma reachable_fresh1: "reachable fresh1"
  unfolding fresh1_def by (rule reachable_new) simp_all

text \<open>
  Claim C4. In a reachable state, \<open>NewPgImp\<close> fails exactly when the free list is empty
  and the replacer has no victim (its list is empty). When it succeeds with page id
  \<open>pid\<close> and frame \<open>f\<close>, \<open>pid\<close> is the id the allocator hands out (the counter moves on
  by \<open>num_instances\<close>), the frame holds \<open>pid\<close> with pin count exactly 1, a clear dirty bit
  and an all-zero buffer, the page table maps \<open>pid\<close> to \<open>f\<close>, \<open>f\<close> is not in the replacer,
  and the zeroed page has been written to disk as the last disk operation.
\<close>

theorem C4_NewPgImp:
  "reachable s \<Longrightarrow> NewPgImp s = (r, s') \<Longrightarrow>
   (r = None \<longleftrightarrow> free_list s = [] \<and> fst (Victim (replacer s)) = None) \<and>
   (fst (Victim (replacer s)) = None \<longleftrightarrow> lru_list (replacer s) = []) \<and>
   (\<forall>pid f. r = Some (pid, f) \<longrightarrow>
      pid = next_page_id s \<and>
      next_page_id s' = pid + int (num_instances s) \<and>
      f < pool_size s \<and>
      pages s' ! f = \<lparr>data = zero_page, page_id = pid, pin_count = 1, is_dirty = False\<rparr> \<and>
      page_table s' pid = Some f \<and>
      f \<notin> lru_map (replacer s') \<and> f \<notin> set (lru_list (replacer s')) \<and>
      contents (disk_manager s') pid = zero_page \<and>
      last (io_log (disk_manager s')) = Write pid zero_page)"
proof -
  assume re: "reachable s" and np: "NewPgImp s = (r, s')"
  from re have ok: "instance_ok s" by (rule reachable_ok)
  then have rok: "replacer_ok (replacer s)" by (simp add: instance_ok_def)
  have a: "r = None \<longleftrightarrow> free_list s = [] \<and> fst (Victim (replacer s)) = None"
    using np by (auto simp: NewPgImp_def FindPage_def AllocatePage_def
                   split: list.splits prod.splits option.splits)
  have b: "fst (Victim (replacer s)) = None \<longleftrightarrow> lru_list (replacer s) = []"
    using rok by (auto simp: Victim_def replacer_ok_def)
  have c: "\<forall>pid f. r = Some (pid, f) \<longrightarrow>
      pid = next_page_id s \<and>
      next_page_id s' = pid + int (num_instances s) \<and>
      f < pool_size s \<and>
      pages s' ! f = \<lparr>data = zero_page, page_id = pid, pin_count = 1, is_dirty = False\<rparr> \<and>
      page_table s' pid = Some f \<and>
      f \<notin> lru_map (replacer s') \<and> f \<notin> set (lru_list (replacer s')) \<and>
      contents (disk_manager s') pid = zero_page \<and>
      last (io_log (disk_manager s')) = Write pid zero_page"
  proof (intro allI impI)
    fix pid f assume r: "r = Some (pid, f)"
    obtain r1 s1 where fp: "FindPage s = (r1, s1)" by (cases "FindPage s")
    with np r have r1: "r1 = Some f"
      by (auto simp: NewPgImp_def AllocatePage_def split: option.splits)
    note fs = FindPage_Some [OF ok fp [unfolded r1]]
    from fs have ok1: "instance_ok s1" and f: "f < pool_size s1" "pin_count (pages s1 ! f) = 0"
      and eqs: "next_page_id s1 = next_page_id s" "num_instances s1 = num_instances s"
        "pool_size s1 = pool_size s"
      by blast+
    from ok1 f have len: "f < length (pages s1)" and rok1: "replacer_ok (replacer s1)"
      by (simp_all add: instance_ok_def)
    from np r fp r1 have pid: "pid = next_page_id s1"
      and s': "s' = s1\<lparr>next_page_id := next_page_id s1 + int (num_instances s1),
          pages := (pages s1)[f := (pages s1 ! f)
            \<lparr>data := zero_page, page_id := pid,
             pin_count := pin_count (pages s1 ! f) + 1, is_dirty := False\<rparr>],
          page_table := (page_table s1)(pid \<mapsto> f),
          replacer := Pin (replacer s1) f,
          disk_manager := WritePage (disk_manager s1) pid zero_page\<rparr>"
      by (auto simp: NewPgImp_def AllocatePage_def)
    have "f \<notin> lru_map (Pin (replacer s1) f)" by (simp add: Pin_map)
    moreover have "replacer_ok (Pin (replacer s1) f)" using rok1 by (rule Pin_ok)
    ultimately have out: "f \<notin> lru_map (Pin (replacer s1) f)"
      "f \<notin> set (lru_list (Pin (replacer s1) f))"
      by (simp_all add: replacer_ok_def)
    show "pid = next_page_id s \<and>
      next_page_id s' = pid + int (num_instances s) \<and>
      f < pool_size s \<and>
      pages s' ! f = \<lparr>data = zero_page, page_id = pid, pin_count = 1, is_dirty = False\<rparr> \<and>
      page_table s' pid = Some f \<and>
      f \<notin> lru_map (replacer s') \<and> f \<notin> set (lru_list (replacer s')) \<and>
      contents (disk_manager s') pid = zero_page \<and>
      last (io_log (disk_manager s')) = Write pid zero_page"
      using eqs pid len f out
      by (simp add: s' WritePage_def Page_all_updates)
  qed
  from a b c show ?thesis by blast
qed

text \<open>
  The theorem on the one-frame instance in three reachable states: fresh (the frame
  comes from the free list), with page 0 pinned (no frame: \<open>NewPage\<close> fails), and with
  page 0 unpinned and dirty (frame 0 is taken from the replacer and holds page 1 with
  pin count 1 afterwards).
\<close>

theorem C4_NewPgImp_witness:
  "reachable fresh1 \<and>
   fst (NewPgImp fresh1) = Some (0, 0) \<and>
   pages (snd (NewPgImp fresh1)) ! 0 =
     \<lparr>data = zero_page, page_id = 0, pin_count = 1, is_dirty = False\<rparr> \<and>
   reachable (run [NewPage] fresh1) \<and>
   fst (NewPgImp (run [NewPage] fresh1)) = None \<and>
   free_list (run [NewPage] fresh1) = [] \<and>
   lru_list (replacer (run [NewPage] fresh1)) = [] \<and>
   reachable (run [NewPage, UnpinPage 0 True] fresh1) \<and>
   fst (NewPgImp (run [NewPage, UnpinPage 0 True] fresh1)) = Some (1, 0) \<and>
   pages (snd (NewPgImp (run [NewPage, UnpinPage 0 True] fresh1))) ! 0 =
     \<lparr>data = zero_page, page_id = 1, pin_count = 1, is_dirty = False\<rparr> \<and>
   page_table (snd (NewPgImp (run [NewPage, UnpinPage 0 True] fresh1))) 1 = Some 0 \<and>
   lru_list (replacer (snd (NewPgImp (run [NewPage, UnpinPage 0 True] fresh1)))) = []"
  using
    C4_NewPgImp [OF reachable_fresh1, of "fst (NewPgImp fresh1)" "snd (NewPgImp fresh1)"]
    C4_NewPgImp [OF reachable_run [OF reachable_fresh1, of "[NewPage]"],
      of "fst (NewPgImp (run [NewPage] fresh1))" "snd (NewPgImp (run [NewPage] fresh1))"]
    C4_NewPgImp [OF reachable_run [OF reachable_fresh1, of "[NewPage, UnpinPage 0 True]"],
      of "fst (NewPgImp (run [NewPage, UnpinPage 0 True] fresh1))"
         "snd (NewPgImp (run [NewPage, UnpinPage 0 True] fresh1))"]
    reachable_fresh1 reachable_run [OF reachable_fresh1, of "[NewPage]"]
    reachable_run [OF reachable_fresh1, of "[NewPage, UnpinPage 0 True]"]
  by (simp add: instance_defs)

lemma flush_entry_counter:
  "next_page_id (flush_entry p s) = next_page_id s \<and>
   num_instances (flush_entry p s) = num_instances s \<and>
   instance_index (flush_entry p s) = instance_index s"
  by (simp add: flush_entry_def split: option.splits)

lemma FlushAllPgsImp_counter:
  "next_page_id (FlushAllPgsImp s order) = next_page_id s \<and>
   num_instances (FlushAllPgsImp s order) = num_instances s \<and>
   instance_index (FlushAllPgsImp s order) = instance_index s"
  unfolding FlushAllPgsImp_def
  by (induction order arbitrary: s) (simp_all add: flush_entry_counter)

lemma FindPage_counter:
  "next_page_id (snd (FindPage s)) = next_page_id s \<and>
   num_instances (snd (FindPage s)) = num_instances s \<and>
   instance_index (snd (FindPage s)) = instance_index s"
  by (simp add: FindPage_def split: list.splits prod.splits option.splits)

lemma NewPgImp_counter:
  "num_instances (snd (NewPgImp s)) = num_instances s \<and>
   instance_index (snd (NewPgImp s)) = instance_index s \<and>
   (case fst (NewPgImp s) of
      None \<Rightarrow> next_page_id (snd (NewPgImp s)) = next_page_id s
    | Some (pid, f) \<Rightarrow>
        pid = next_page_id s \<and>
        next_page_id (snd (NewPgImp s)) = next_page_id s + int (num_instances s))"
  using FindPage_counter [of s]
  by (auto simp: NewPgImp_def AllocatePage_def split: prod.splits option.splits)

lemma step_counter:
  "num_instances (step r s) = num_instances s \<and>
   instance_index (step r s) = instance_index s \<and>
   (r \<noteq> NewPage \<longrightarrow> next_page_id (step r s) = next_page_id s)"
proof (cases r)
  case NewPage
  then show ?thesis using NewPgImp_counter [of s] by simp
next
  case (FetchPage p)
  then show ?thesis using FindPage_counter [of s]
    by (auto simp: FetchPgImp_def ReadPage_def split: prod.splits option.splits)
next
  case (UnpinPage p flag)
  then show ?thesis by (simp add: UnpinPgImp_def Let_def split: option.splits)
next
  case (FlushPage p)
  then show ?thesis by (simp add: FlushPgImp_def split: option.splits)
next
  case (FlushAllPages order)
  then show ?thesis by (simp add: FlushAllPgsImp_counter)
next
  case (DeletePage p)
  then show ?thesis by (simp add: DeletePgImp_def split: option.splits)
next
  case (WriteData f buf)
  then show ?thesis by simp
qed

lemma allocated_progression:
  "(\<forall>k < length (allocated rs s).
      allocated rs s ! k = next_page_id s + int k * int (num_instances s)) \<and>
   next_page_id (run rs s) =
     next_page_id s + int (length (allocated rs s)) * int (num_instances s) \<and>
   num_instances (run rs s) = num_instances s \<and>
   instance_index (run rs s) = instance_index s"
proof (induction rs arbitrary: s)
  case Nil
  show ?case by simp
next
  case (Cons r rs)
  note IH = Cons.IH [of "step r s"]
  note sc = step_counter [of r s]
  show ?case
  proof (cases "r = NewPage \<and> fst (NewPgImp s) \<noteq> None")
    case True
    then obtain pid f where some: "fst (NewPgImp s) = Some (pid, f)" by auto
    with NewPgImp_counter [of s] True
    have pid: "pid = next_page_id s"
      and nxt: "next_page_id (step r s) = next_page_id s + int (num_instances s)"
      by simp_all
    from True some have al: "allocated (r # rs) s = pid # allocated rs (step r s)" by simp
    have nth: "\<forall>k < length (allocated (r # rs) s).
        allocated (r # rs) s ! k = next_page_id s + int k * int (num_instances s)"
    proof (intro allI impI)
      fix k assume k: "k < length (allocated (r # rs) s)"
      show "allocated (r # rs) s ! k = next_page_id s + int k * int (num_instances s)"
      proof (cases k)
        case 0
        then show ?thesis unfolding al by (simp add: pid)
      next
        case (Suc j)
        with k al have "j < length (allocated rs (step r s))" by simp
        with IH have "allocated rs (step r s) ! j =
            next_page_id (step r s) + int j * int (num_instances (step r s))" by blast
        then show ?thesis using Suc sc nxt unfolding al by (simp add: algebra_simps)
      qed
    qed
    from IH sc nxt nth show ?thesis unfolding al by (simp add: algebra_simps)
  next
    case False
    then have al: "allocated (r # rs) s = allocated rs (step r s)"
      by (cases r) (auto split: option.splits)
    from False have nxt: "next_page_id (step r s) = next_page_id s"
      using sc NewPgImp_counter [of s]
      by (cases "r = NewPage") (auto split: option.splits)
    from IH sc nxt show ?thesis unfolding al by simp
  qed
qed

text \<open>
  Claim C5. For an instance constructed with \<open>num_instances = n > 0\<close> and
  \<open>instance_index = idx < n\<close>, the page ids that \<open>AllocatePage\<close> hands out over any run
  of requests are \<open>idx, idx + n, idx + 2 n, ...\<close>: each is the previous one plus \<open>n\<close>
  (so strictly larger), each is congruent to \<open>idx\<close> modulo \<open>n\<close> (the assertion of
  \<open>ValidatePageId\<close> holds), no id is handed out twice, and the next two calls of
  \<open>AllocatePage\<close> after the run continue the progression.
\<close>

theorem C5_allocated_page_ids:
  "0 < n \<Longrightarrow> idx < n \<Longrightarrow> s0 = BufferPoolManagerInstance_new psize n idx d \<Longrightarrow>
   ids = allocated rs s0 \<Longrightarrow>
   (\<forall>k < length ids. ids ! k = int idx + int k * int n) \<and>
   (\<forall>k. Suc k < length ids \<longrightarrow> ids ! Suc k = ids ! k + int n \<and> ids ! k < ids ! Suc k) \<and>
   (\<forall>p \<in> set ids. p mod int n = int idx \<and> 0 \<le> p \<and> ValidatePageId (run rs s0) p) \<and>
   distinct ids \<and>
   fst (AllocatePage (run rs s0)) = int idx + int (length ids) * int n \<and>
   fst (AllocatePage (snd (AllocatePage (run rs s0)))) = fst (AllocatePage (run rs s0)) + int n"
proof -
  assume n: "0 < n" and idx: "idx < n"
    and s0: "s0 = BufferPoolManagerInstance_new psize n idx d" and ids: "ids = allocated rs s0"
  have init: "next_page_id s0 = int idx" "num_instances s0 = n" "instance_index s0 = idx"
    by (simp_all add: s0 BufferPoolManagerInstance_new_def)
  from allocated_progression [of rs s0]
  have nth: "\<forall>k < length ids. ids ! k = int idx + int k * int n"
    and fin: "next_page_id (run rs s0) = int idx + int (length ids) * int n"
      "num_instances (run rs s0) = n" "instance_index (run rs s0) = idx"
    by (simp_all add: ids init)
  have succ: "\<forall>k. Suc k < length ids \<longrightarrow> ids ! Suc k = ids ! k + int n \<and> ids ! k < ids ! Suc k"
  proof (intro allI impI)
    fix k assume k: "Suc k < length ids"
    then have "ids ! Suc k = int idx + int (Suc k) * int n" "ids ! k = int idx + int k * int n"
      using nth by simp_all
    then show "ids ! Suc k = ids ! k + int n \<and> ids ! k < ids ! Suc k"
      using n by (simp add: algebra_simps)
  qed
  have elems: "\<forall>p \<in> set ids. p mod int n = int idx \<and> 0 \<le> p \<and> ValidatePageId (run rs s0) p"
  proof
    fix p assume "p \<in> set ids"
    then obtain k where "k < length ids" "p = ids ! k" by (auto simp: in_set_conv_nth)
    with nth have p: "p = int idx + int k * int n" by simp
    then have "p mod int n = int idx" using idx by simp
    moreover from p have "0 \<le> p" by simp
    ultimately show "p mod int n = int idx \<and> 0 \<le> p \<and> ValidatePageId (run rs s0) p"
      by (simp add: ValidatePageId_def fin)
  qed
  have dist: "distinct ids"
  proof (subst distinct_conv_nth, intro allI impI)
    fix i j assume "i < length ids" "j < length ids" "i \<noteq> j"
    with nth have "ids ! i = int idx + int i * int n" "ids ! j = int idx + int j * int n"
      by simp_all
    with \<open>i \<noteq> j\<close> n show "ids ! i \<noteq> ids ! j" by simp
  qed
  have nxt: "fst (AllocatePage (run rs s0)) = int idx + int (length ids) * int n"
    "fst (AllocatePage (snd (AllocatePage (run rs s0)))) = fst (AllocatePage (run rs s0)) + int n"
    by (simp_all add: AllocatePage_def fin)
  from nth succ elems dist nxt show ?thesis by blast
qed

text \<open>
  The theorem on instance 1 of 2 with two frames: of the five \<open>NewPage\<close> requests of the
  run three succeed, with the ids 1, 3 and 5, and the next id is 7.
\<close>

theorem C5_allocated_page_ids_witness:
  "(0::nat) < 2 \<and> (1::nat) < 2 \<and>
   allocated [NewPage, NewPage, NewPage, UnpinPage 1 False, NewPage, DeletePage 3, NewPage]
     (BufferPoolManagerInstance_new 2 2 1 disk0) = [1, 3, 5] \<and>
   fst (AllocatePage
     (run [NewPage, NewPage, NewPage, UnpinPage 1 False, NewPage, DeletePage 3, NewPage]
        (BufferPoolManagerInstance_new 2 2 1 disk0))) = 7"
  using C5_allocated_page_ids [of 2 1 "BufferPoolManagerInstance_new 2 2 1 disk0" 2 disk0
    "allocated [NewPage, NewPage, NewPage, UnpinPage 1 False, NewPage, DeletePage 3, NewPage]
       (BufferPoolManagerInstance_new 2 2 1 disk0)"
    "[NewPage, NewPage, NewPage, UnpinPage 1 False, NewPage, DeletePage 3, NewPage]"]
  by (simp add: instance_defs upt_rec)

section \<open>Pin counts and replacer membership\<close>

lemma pins_ok_new: "pins_ok (BufferPoolManagerInstance_new psize n idx d)"
  by (simp add: pins_ok_def BufferPoolManagerInstance_new_def LRUReplacer_new_def)

lemma Pin_capacity: "capacity (Pin r f) = capacity r"
  by (simp add: Pin_def)

lemma FindPage_pins:
  assumes ok: "instance_ok s" and po: "pins_ok s" and fp: "FindPage s = (Some f, s1)"
  shows "pins_ok s1"
proof (cases "free_list s")
  case (Cons g rest)
  with fp have "s1 = s\<lparr>free_list := rest\<rparr>" by (simp add: FindPage_def)
  with po show ?thesis by (auto simp: pins_ok_def)
next
  case Nil
  with fp obtain r where v: "Victim (replacer s) = (Some f, r)"
    and s1: "s1 = s\<lparr>replacer := r,
        disk_manager :=
          (if is_dirty (pages s ! f)
           then WritePage (disk_manager s) (page_id (pages s ! f)) (data (pages s ! f))
           else disk_manager s),
        page_table := (page_table s)(page_id (pages s ! f) := None)\<rparr>"
    by (auto simp: FindPage_def split: prod.splits option.splits)
  from ok have rok: "replacer_ok (replacer s)" by (simp add: instance_ok_def)
  from Victim_Some [OF rok v] have r: "lru_map r = lru_map (replacer s) - {f}" by simp
  from v have cap: "capacity r = capacity (replacer s)"
    by (auto simp: Victim_def split: if_splits)
  have "\<forall>p g. ((page_table s)(page_id (pages s ! f) := None)) p = Some g \<and>
      pin_count (pages s ! g) = 0 \<longrightarrow> g \<in> lru_map (replacer s) - {f}"
  proof (intro allI impI)
    fix p g
    assume a: "((page_table s)(page_id (pages s ! f) := None)) p = Some g \<and>
      pin_count (pages s ! g) = 0"
    then have p: "p \<noteq> page_id (pages s ! f)" "page_table s p = Some g"
      by (auto split: if_splits)
    with ok have "page_id (pages s ! g) = p" by (auto simp: instance_ok_def)
    with p have "g \<noteq> f" by auto
    moreover from a p po have "g \<in> lru_map (replacer s)" by (auto simp: pins_ok_def)
    ultimately show "g \<in> lru_map (replacer s) - {f}" by simp
  qed
  with po show ?thesis by (auto simp: pins_ok_def s1 r cap)
qed

lemma install_pins:
  assumes ok: "instance_ok s1" and po: "pins_ok s1" and f: "f < pool_size s1"
    and pin: "pin_count pg = 1"
    and pt: "\<forall>p g. page_table s2 p = Some g \<longrightarrow> g = f \<or> page_table s1 p = Some g"
    and fields: "pages s2 = (pages s1)[f := pg]" "replacer s2 = Pin (replacer s1) f"
      "pool_size s2 = pool_size s1"
  shows "pins_ok s2"
proof -
  from ok f have len: "f < length (pages s1)" by (simp add: instance_ok_def)
  have nn: "\<forall>g < pool_size s1. 0 \<le> pin_count ((pages s1)[f := pg] ! g)"
  proof (intro allI impI)
    fix g assume "g < pool_size s1"
    with po pin len show "0 \<le> pin_count ((pages s1)[f := pg] ! g)"
      by (cases "g = f") (simp_all add: pins_ok_def)
  qed
  have mem: "\<forall>p g. page_table s2 p = Some g \<and> pin_count ((pages s1)[f := pg] ! g) = 0 \<longrightarrow>
      g \<in> lru_map (Pin (replacer s1) f)"
  proof (intro allI impI)
    fix p g assume a: "page_table s2 p = Some g \<and> pin_count ((pages s1)[f := pg] ! g) = 0"
    with pin len have gf: "g \<noteq> f" by auto
    with a pt have "page_table s1 p = Some g" "pin_count (pages s1 ! g) = 0" by auto
    with po have "g \<in> lru_map (replacer s1)" by (auto simp: pins_ok_def)
    with gf show "g \<in> lru_map (Pin (replacer s1) f)" by (simp add: Pin_map)
  qed
  from po nn mem show ?thesis
    by (auto simp: pins_ok_def fields Pin_capacity)
qed

lemma NewPgImp_pins:
  assumes ok: "instance_ok s" and po: "pins_ok s"
  shows "pins_ok (snd (NewPgImp s))"
proof -
  obtain r s1 where fp: "FindPage s = (r, s1)" by (cases "FindPage s")
  show ?thesis
  proof (cases r)
    case None
    with fp have "snd (NewPgImp s) = s1" by (simp add: NewPgImp_def)
    moreover from fp None have "s1 = s" by (simp add: FindPage_None)
    ultimately show ?thesis using po by simp
  next
    case (Some f)
    note fs = FindPage_Some [OF ok fp [unfolded Some]]
    from fs have ok1: "instance_ok s1" and f: "f < pool_size s1" "pin_count (pages s1 ! f) = 0"
      by blast+
    have po1: "pins_ok s1" using ok po fp [unfolded Some] by (rule FindPage_pins)
    show ?thesis
    proof (rule install_pins [OF ok1 po1 f(1)])
      show "pin_count ((pages s1 ! f)
          \<lparr>data := zero_page, page_id := next_page_id s1,
           pin_count := pin_count (pages s1 ! f) + 1, is_dirty := False\<rparr>) = 1"
        using f by simp
      show "\<forall>p g. page_table (snd (NewPgImp s)) p = Some g \<longrightarrow>
          g = f \<or> page_table s1 p = Some g"
        using fp Some by (auto simp: NewPgImp_def AllocatePage_def)
      show "pages (snd (NewPgImp s)) = (pages s1)[f := (pages s1 ! f)
          \<lparr>data := zero_page, page_id := next_page_id s1,
           pin_count := pin_count (pages s1 ! f) + 1, is_dirty := False\<rparr>]"
        "replacer (snd (NewPgImp s)) = Pin (replacer s1) f"
        "pool_size (snd (NewPgImp s)) = pool_size s1"
        using fp Some by (simp_all add: NewPgImp_def AllocatePage_def)
    qed
  qed
qed

lemma FetchPgImp_pins:
  assumes ok: "instance_ok s" and po: "pins_ok s"
  shows "pins_ok (snd (FetchPgImp s p))"
proof (cases "page_table s p")
  case (Some f)
  from ok Some have f: "f < pool_size s" "f < length (pages s)" by (auto simp: instance_ok_def)
  let ?pg = "(pages s ! f)\<lparr>pin_count := pin_count (pages s ! f) + 1\<rparr>"
  have fields: "pages (snd (FetchPgImp s p)) = (pages s)[f := ?pg]"
    "replacer (snd (FetchPgImp s p)) = Pin (replacer s) f"
    "page_table (snd (FetchPgImp s p)) = page_table s"
    "pool_size (snd (FetchPgImp s p)) = pool_size s"
    using Some by (simp_all add: FetchPgImp_def)
  from po f have pinf: "0 \<le> pin_count (pages s ! f)" by (simp add: pins_ok_def)
  have nn: "\<forall>g < pool_size s. 0 \<le> pin_count ((pages s)[f := ?pg] ! g)"
  proof (intro allI impI)
    fix g assume "g < pool_size s"
    with po pinf f show "0 \<le> pin_count ((pages s)[f := ?pg] ! g)"
      by (cases "g = f") (simp_all add: pins_ok_def)
  qed
  have mem: "\<forall>q g. page_table s q = Some g \<longrightarrow> pin_count ((pages s)[f := ?pg] ! g) = 0 \<longrightarrow>
      g \<in> lru_map (Pin (replacer s) f)"
  proof (intro allI impI)
    fix q g assume a: "page_table s q = Some g" "pin_count ((pages s)[f := ?pg] ! g) = 0"
    with pinf f have gf: "g \<noteq> f" by auto
    with a po have "g \<in> lru_map (replacer s)" by (auto simp: pins_ok_def)
    with gf show "g \<in> lru_map (Pin (replacer s) f)" by (simp add: Pin_map)
  qed
  from po nn mem show ?thesis by (auto simp: pins_ok_def fields Pin_capacity)
next
  case None
  obtain r s1 where fp: "FindPage s = (r, s1)" by (cases "FindPage s")
  show ?thesis
  proof (cases r)
    case N: None
    with fp None have "snd (FetchPgImp s p) = s1" by (simp add: FetchPgImp_def)
    moreover from fp N have "s1 = s" by (simp add: FindPage_None)
    ultimately show ?thesis using po by simp
  next
    case (Some f)
    note fs = FindPage_Some [OF ok fp [unfolded Some]]
    from fs have ok1: "instance_ok s1" and f: "f < pool_size s1" "pin_count (pages s1 ! f) = 0"
      by blast+
    have po1: "pins_ok s1" using ok po fp [unfolded Some] by (rule FindPage_pins)
    show ?thesis
    proof (rule install_pins [OF ok1 po1 f(1)])
      show "pin_count ((pages s1 ! f)
            \<lparr>data := fst (ReadPage
                (if is_dirty (pages s1 ! f)
                 then WritePage (disk_manager s1) (page_id (pages s1 ! f)) (data (pages s1 ! f))
                 else disk_manager s1) p),
             page_id := p,
             pin_count := pin_count (pages s1 ! f) + 1, is_dirty := False\<rparr>) = 1"
        using f by simp
      show "\<forall>q g. page_table (snd (FetchPgImp s p)) q = Some g \<longrightarrow>
          g = f \<or> page_table s1 q = Some g"
        using fp Some None by (auto simp: FetchPgImp_def ReadPage_def split: if_splits)
      show "pages (snd (FetchPgImp s p)) = (pages s1)[f := (pages s1 ! f)
            \<lparr>data := fst (ReadPage
                (if is_dirty (pages s1 ! f)
                 then WritePage (disk_manager s1) (page_id (pages s1 ! f)) (data (pages s1 ! f))
                 else disk_manager s1) p),
             page_id := p,
             pin_count := pin_count (pages s1 ! f) + 1, is_dirty := False\<rparr>]"
        "replacer (snd (FetchPgImp s p)) = Pin (replacer s1) f"
        "pool_size (snd (FetchPgImp s p)) = pool_size s1"
        using fp Some None by (simp_all add: FetchPgImp_def ReadPage_def)
    qed
  qed
qed

lemma replacer_room:
  assumes ok: "instance_ok s" and f: "f < pool_size s" "f \<notin> lru_map (replacer s)"
  shows "length (lru_list (replacer s)) < pool_size s"
proof -
  from ok have rok: "replacer_ok (replacer s)"
    and sub: "lru_map (replacer s) \<subseteq> {0..<pool_size s}"
    by (auto simp: instance_ok_def)
  with f have "lru_map (replacer s) \<subseteq> {0..<pool_size s} - {f}" by auto
  then have "card (lru_map (replacer s)) \<le> card ({0..<pool_size s} - {f})"
    by (intro card_mono) simp_all
  also have "\<dots> = pool_size s - 1" using f by simp
  finally have "card (lru_map (replacer s)) < pool_size s" using f by simp
  moreover from rok have "card (lru_map (replacer s)) = length (lru_list (replacer s))"
    by (simp add: replacer_ok_def distinct_card)
  ultimately show ?thesis by simp
qed

lemma Unpin_below_capacity:
  "f \<notin> lru_map r \<Longrightarrow> length (lru_list r) < capacity r \<Longrightarrow>
   Unpin r f = r\<lparr>lru_list := f # lru_list r, lru_map := insert f (lru_map r)\<rparr>"
  by (simp add: Unpin_def Size_def)

lemma UnpinPgImp_pins:
  assumes ok: "instance_ok s" and po: "pins_ok s"
  shows "pins_ok (snd (UnpinPgImp s p flag))"
proof (cases "page_table s p")
  case None
  with po show ?thesis by (simp add: UnpinPgImp_def)
next
  case (Some f)
  from ok Some have f: "f < pool_size s" "f < length (pages s)" by (auto simp: instance_ok_def)
  from po f have pinf: "0 \<le> pin_count (pages s ! f)" by (simp add: pins_ok_def)
  from po have cap: "capacity (replacer s) = pool_size s" by (simp add: pins_ok_def)
  from ok have pins: "\<forall>g \<in> lru_map (replacer s). pin_count (pages s ! g) = 0"
    by (simp add: instance_ok_def)
  let ?s2 = "snd (UnpinPgImp s p flag)"
  show ?thesis
  proof (cases "pin_count (pages s ! f) = 0")
    case True
    with Some f have "pool_size ?s2 = pool_size s" "replacer ?s2 = replacer s"
      "page_table ?s2 = page_table s"
      "\<forall>g. pin_count (pages ?s2 ! g) = pin_count (pages s ! g)"
      by (auto simp: UnpinPgImp_def Let_def nth_update_pin_count)
    with po show ?thesis by (auto simp: pins_ok_def)
  next
    case False
    with pins have notin: "f \<notin> lru_map (replacer s)" by auto
    from replacer_room [OF ok f(1) notin] cap
    have u: "Unpin (replacer s) f =
        (replacer s)\<lparr>lru_list := f # lru_list (replacer s),
                      lru_map := insert f (lru_map (replacer s))\<rparr>"
      by (intro Unpin_below_capacity [OF notin]) simp
    from False Some f have fields: "pool_size ?s2 = pool_size s" "page_table ?s2 = page_table s"
      "pin_count (pages ?s2 ! f) = pin_count (pages s ! f) - 1"
      "\<forall>g. g \<noteq> f \<longrightarrow> pin_count (pages ?s2 ! g) = pin_count (pages s ! g)"
      "replacer ?s2 = (if pin_count (pages s ! f) = 1 then Unpin (replacer s) f else replacer s)"
      by (auto simp: UnpinPgImp_def Let_def)
    have nn: "\<forall>g < pool_size s. 0 \<le> pin_count (pages ?s2 ! g)"
    proof (intro allI impI)
      fix g assume g: "g < pool_size s"
      from pinf False have "0 < pin_count (pages s ! f)" by simp
      with po g fields show "0 \<le> pin_count (pages ?s2 ! g)"
        by (cases "g = f") (simp_all add: pins_ok_def)
    qed
    have mem: "\<forall>q g. page_table s q = Some g \<longrightarrow> pin_count (pages ?s2 ! g) = 0 \<longrightarrow>
        g \<in> lru_map (replacer ?s2)"
    proof (intro allI impI)
      fix q g assume a: "page_table s q = Some g" "pin_count (pages ?s2 ! g) = 0"
      show "g \<in> lru_map (replacer ?s2)"
      proof (cases "g = f")
        case True
        with a fields have "pin_count (pages s ! f) = 1" by simp
        with True fields u show ?thesis by simp
      next
        case gf: False
        with a fields have "pin_count (pages s ! g) = 0" by simp
        with a po have "g \<in> lru_map (replacer s)" by (auto simp: pins_ok_def)
        then show ?thesis using fields u by simp
      qed
    qed
    have "capacity (replacer ?s2) = pool_size s" using fields u cap by simp
    with nn mem show ?thesis by (auto simp: pins_ok_def fields(1,2))
  qed
qed

lemma DeletePgImp_pins:
  assumes ok: "instance_ok s" and po: "pins_ok s"
  shows "pins_ok (snd (DeletePgImp s p))"
proof (cases "page_table s p")
  case None
  with po show ?thesis by (simp add: DeletePgImp_def)
next
  case (Some f)
  show ?thesis
  proof (cases "pin_count (pages s ! f) > 0")
    case True
    with Some po show ?thesis by (simp add: DeletePgImp_def)
  next
    case False
    let ?pg = "(pages s ! f)\<lparr>data := zero_page, page_id := INVALID_PAGE_ID,
                   pin_count := 0, is_dirty := False\<rparr>"
    let ?s2 = "snd (DeletePgImp s p)"
    have fields: "pages ?s2 = (pages s)[f := ?pg]" "page_table ?s2 = (page_table s)(p := None)"
      "replacer ?s2 = replacer s" "pool_size ?s2 = pool_size s"
      using Some False by (simp_all add: DeletePgImp_def)
    from ok Some have f: "f < length (pages s)" "page_id (pages s ! f) = p"
      by (auto simp: instance_ok_def)
    have c: "capacity (replacer ?s2) = pool_size ?s2"
      using po by (simp add: pins_ok_def fields)
    have nn: "\<forall>g < pool_size ?s2. 0 \<le> pin_count (pages ?s2 ! g)"
    proof (intro allI impI)
      fix g assume "g < pool_size ?s2"
      with po f show "0 \<le> pin_count (pages ?s2 ! g)"
        by (cases "g = f") (simp_all add: pins_ok_def fields)
    qed
    have mem: "\<forall>q g. page_table ?s2 q = Some g \<and> pin_count (pages ?s2 ! g) = 0 \<longrightarrow>
        g \<in> lru_map (replacer ?s2)"
    proof (intro allI impI)
      fix q g assume a: "page_table ?s2 q = Some g \<and> pin_count (pages ?s2 ! g) = 0"
      then have q: "q \<noteq> p" "page_table s q = Some g"
        by (auto simp: fields split: if_splits)
      with ok have "page_id (pages s ! g) = q" by (auto simp: instance_ok_def)
      with q f have "g \<noteq> f" by auto
      with a have "pin_count (pages s ! g) = 0" by (simp add: fields)
      with q po show "g \<in> lru_map (replacer ?s2)" by (auto simp: pins_ok_def fields)
    qed
    from c nn mem show ?thesis unfolding pins_ok_def by blast
  qed
qed

lemma meta_keep_pins:
  assumes po: "pins_ok s"
    and meta: "\<forall>g. pin_count (pages s2 ! g) = pin_count (pages s ! g)"
    and fields: "page_table s2 = page_table s" "replacer s2 = replacer s"
      "pool_size s2 = pool_size s"
  shows "pins_ok s2"
  using po by (auto simp: pins_ok_def meta fields)

lemma flush_entry_pins: "pins_ok s \<Longrightarrow> pins_ok (flush_entry p s)"
  by (erule meta_keep_pins)
     (auto simp: flush_entry_def nth_update_pin_count split: option.splits)

lemma FlushAllPgsImp_pins: "pins_ok s \<Longrightarrow> pins_ok (FlushAllPgsImp s order)"
  unfolding FlushAllPgsImp_def
  by (induction order arbitrary: s) (simp_all add: flush_entry_pins)

lemma FlushPgImp_pins: "pins_ok s \<Longrightarrow> pins_ok (snd (FlushPgImp s p))"
  by (erule meta_keep_pins)
     (auto simp: FlushPgImp_def nth_update_pin_count split: option.splits)

lemma WriteData_pins:
  "pins_ok s \<Longrightarrow> pins_ok (s\<lparr>pages := (pages s)[f := (pages s ! f)\<lparr>data := buf\<rparr>]\<rparr>)"
  by (erule meta_keep_pins) (auto simp: nth_update_pin_count)

lemma step_pins: "instance_ok s \<Longrightarrow> pins_ok s \<Longrightarrow> pins_ok (step r s)"
  by (cases r)
     (simp_all add: NewPgImp_pins FetchPgImp_pins UnpinPgImp_pins FlushPgImp_pins
        FlushAllPgsImp_pins DeletePgImp_pins WriteData_pins)

lemma reachable_pins: "reachable s \<Longrightarrow> pins_ok s"
  by (induction rule: reachable.induct) (simp_all add: pins_ok_new step_pins reachable_ok)

text \<open>
  Extra X1. In every reachable state a frame in the replacer is a frame of the pool
  with pin count 0, the replacer's list holds it once, and the replacer never holds
  more than \<open>pool_size\<close> frames. This is the half of the replacer-membership invariant
  of claim C1 that the code maintains ("in the replacer" implies "unpinned"); "resident"
  is the part that \<open>DeletePgImp\<close> breaks.
\<close>

theorem X1_replacer_frames_unpinned:
  "reachable s \<Longrightarrow> f \<in> lru_map (replacer s) \<Longrightarrow>
   f < pool_size s \<and> pin_count (pages s ! f) = 0 \<and>
   f \<in> set (lru_list (replacer s)) \<and> distinct (lru_list (replacer s)) \<and>
   Size (replacer s) \<le> pool_size s"
proof -
  assume re: "reachable s" and f: "f \<in> lru_map (replacer s)"
  from re have ok: "instance_ok s" by (rule reachable_ok)
  then have rok: "replacer_ok (replacer s)"
    and sub: "lru_map (replacer s) \<subseteq> {0..<pool_size s}"
    by (auto simp: instance_ok_def)
  from sub have "card (lru_map (replacer s)) \<le> card {0..<pool_size s}"
    by (intro card_mono) simp_all
  with rok have "Size (replacer s) \<le> pool_size s"
    by (simp add: Size_def replacer_ok_def distinct_card)
  with ok rok f show ?thesis by (auto simp: instance_ok_def replacer_ok_def)
qed

text \<open>
  The theorem on the one-frame instance after \<open>NewPage\<close> and \<open>UnpinPage 0 False\<close>,
  where frame 0 is in the replacer.
\<close>

theorem X1_replacer_frames_unpinned_witness:
  "reachable (run [NewPage, UnpinPage 0 False] fresh1) \<and>
   0 \<in> lru_map (replacer (run [NewPage, UnpinPage 0 False] fresh1)) \<and>
   0 < pool_size (run [NewPage, UnpinPage 0 False] fresh1) \<and>
   pin_count (pages (run [NewPage, UnpinPage 0 False] fresh1) ! 0) = 0 \<and>
   Size (replacer (run [NewPage, UnpinPage 0 False] fresh1)) \<le>
     pool_size (run [NewPage, UnpinPage 0 False] fresh1)"
proof -
  have re: "reachable (run [NewPage, UnpinPage 0 False] fresh1)"
    by (rule reachable_run [OF reachable_fresh1])
  have mem: "0 \<in> lru_map (replacer (run [NewPage, UnpinPage 0 False] fresh1))"
    by (simp add: instance_defs)
  from re mem X1_replacer_frames_unpinned [OF re mem] show ?thesis by blast
qed

text \<open>
  Extra X2. In every reachable state no pin count is negative, every resident frame
  with pin count 0 is in the replacer (the other direction of the replacer-membership
  invariant), and the replacer's capacity is the pool size.
\<close>

theorem X2_unpinned_resident_in_replacer:
  "reachable s \<Longrightarrow>
   (\<forall>f < pool_size s. 0 \<le> pin_count (pages s ! f)) \<and>
   (\<forall>p f. page_table s p = Some f \<and> pin_count (pages s ! f) = 0 \<longrightarrow>
      f \<in> lru_map (replacer s) \<and> f \<in> set (lru_list (replacer s))) \<and>
   capacity (replacer s) = pool_size s"
proof -
  assume re: "reachable s"
  from re have "instance_ok s" by (rule reachable_ok)
  then have "lru_map (replacer s) = set (lru_list (replacer s))"
    by (simp add: instance_ok_def replacer_ok_def)
  moreover from re have "pins_ok s" by (rule reachable_pins)
  ultimately show ?thesis unfolding pins_ok_def by auto
qed

text \<open>
  The theorem on the one-frame instance after \<open>NewPage\<close> and \<open>UnpinPage 0 False\<close>:
  page 0 is resident in frame 0 with pin count 0, and frame 0 is in the replacer.
\<close>

theorem X2_unpinned_resident_in_replacer_witness:
  "reachable (run [NewPage, UnpinPage 0 False] fresh1) \<and>
   page_table (run [NewPage, UnpinPage 0 False] fresh1) 0 = Some 0 \<and>
   pin_count (pages (run [NewPage, UnpinPage 0 False] fresh1) ! 0) = 0 \<and>
   0 \<in> lru_map (replacer (run [NewPage, UnpinPage 0 False] fresh1)) \<and>
   capacity (replacer (run [NewPage, UnpinPage 0 False] fresh1)) =
     pool_size (run [NewPage, UnpinPage 0 False] fresh1)"
proof -
  have re: "reachable (run [NewPage, UnpinPage 0 False] fresh1)"
    by (rule reachable_run [OF reachable_fresh1])
  have ev: "page_table (run [NewPage, UnpinPage 0 False] fresh1) 0 = Some 0"
    "pin_count (pages (run [NewPage, UnpinPage 0 False] fresh1) ! 0) = 0"
    by (simp_all add: instance_defs)
  from re ev X2_unpinned_resident_in_replacer [OF re] show ?thesis by blast
qed

text \<open>
  Extra X3. In every reachable state the page table maps a page to a frame of the pool
  that carries the page's id and is not on the free list, no two pages share a frame,
  and the free list holds distinct unpinned frames of the pool.
\<close>

theorem X3_page_table_and_free_list:
  "reachable s \<Longrightarrow>
   (\<forall>p f. page_table s p = Some f \<longrightarrow>
      f < pool_size s \<and> page_id (pages s ! f) = p \<and> f \<notin> set (free_list s)) \<and>
   (\<forall>p q f. page_table s p = Some f \<and> page_table s q = Some f \<longrightarrow> p = q) \<and>
   distinct (free_list s) \<and>
   (\<forall>f \<in> set (free_list s). f < pool_size s \<and> pin_count (pages s ! f) = 0) \<and>
   length (pages s) = pool_size s"
proof -
  assume "reachable s"
  then have ok: "instance_ok s" by (rule reachable_ok)
  then have tab: "\<forall>p f. page_table s p = Some f \<longrightarrow>
      f < pool_size s \<and> page_id (pages s ! f) = p \<and> f \<notin> set (free_list s)"
    by (simp add: instance_ok_def)
  have inj: "\<forall>p q f. page_table s p = Some f \<and> page_table s q = Some f \<longrightarrow> p = q"
  proof (intro allI impI)
    fix p q f assume "page_table s p = Some f \<and> page_table s q = Some f"
    with tab have "page_id (pages s ! f) = p" "page_id (pages s ! f) = q" by blast+
    then show "p = q" by simp
  qed
  from ok tab inj show ?thesis by (simp add: instance_ok_def)
qed

text \<open>
  The theorem on the one-frame instance after \<open>NewPage\<close>: page 0 is in frame 0, and the
  free list is empty.
\<close>

theorem X3_page_table_and_free_list_witness:
  "reachable (run [NewPage] fresh1) \<and>
   page_table (run [NewPage] fresh1) 0 = Some 0 \<and>
   0 < pool_size (run [NewPage] fresh1) \<and>
   page_id (pages (run [NewPage] fresh1) ! 0) = 0 \<and>
   0 \<notin> set (free_list (run [NewPage] fresh1)) \<and>
   distinct (free_list (run [NewPage] fresh1))"
proof -
  have re: "reachable (run [NewPage] fresh1)"
    by (rule reachable_run [OF reachable_fresh1])
  have ev: "page_table (run [NewPage] fresh1) 0 = Some 0"
    by (simp add: instance_defs)
  from re ev X3_page_table_and_free_list [OF re] show ?thesis by blast
qed

end
